theory Spec2Isabelle
  imports Main "HOL-Library.Word" "HOL-Library.Signed_Division" "HOL-Library.Sublist"
begin

section \<open>Machine model shared by http.c and queue.c\<close>

text \<open>
  A C \<^verbatim>\<open>int\<close> is a 32-bit two's complement word, read with \<open>sint\<close>. A call that does
  not return normally ends in a \<open>stop\<close>: the process left through \<^verbatim>\<open>exit\<close>, the
  calling thread blocks for ever, or the behaviour of the C program is undefined at
  that point (the kind of undefined behaviour is recorded).
\<close>

type_synonym c_int = "32 word"

datatype stop =
    Exit int
  | Blocks
  | NullDereference
  | UninitialisedPointer
  | BufferOverflow
  | OutOfBounds
  | DivisionByZero
  | SignedOverflow
  | UninitialisedSemaphore

text \<open>A \<^verbatim>\<open>char *\<close> that is either NULL or points \<open>n\<close> bytes into a known string.\<close>

type_synonym char_ptr = "nat option"

definition INT_MAX :: int where
  "INT_MAX = 2147483647"

definition INT_MIN :: int where
  "INT_MIN = - 2147483648"

text \<open>
  The \<^verbatim>\<open>/\<close> of C on two \<^verbatim>\<open>int\<close>s: truncation towards zero; a zero divisor and
  \<^verbatim>\<open>INT_MIN / -1\<close> are undefined.
\<close>

definition c_int_div :: "c_int \<Rightarrow> c_int \<Rightarrow> stop + c_int" where
  "c_int_div a b =
     (if b = 0 then Inl DivisionByZero
      else if sint a = INT_MIN \<and> sint b = - 1 then Inl SignedOverflow
      else Inr (word_of_int (sint a sdiv sint b)))"

section \<open>http.c: the chunk planner\<close>

text \<open>The process-wide variable \<^verbatim>\<open>max_chunk_size\<close> that \<^verbatim>\<open>calc_tasks\<close> assigns.\<close>

record globals =
  max_chunk_size :: c_int

text \<open>
  \<^verbatim>\<open>int calc_tasks(char* is_accept_ranges, int content_size, int threads)\<close>:
  returns the number of tasks and stores the chunk size in \<^verbatim>\<open>max_chunk_size\<close>.
\<close>

definition calc_tasks :: "char_ptr \<Rightarrow> c_int \<Rightarrow> c_int \<Rightarrow> globals \<Rightarrow> stop + (c_int \<times> globals)" where
  "calc_tasks is_accept_ranges content_size threads g =
     (let tasks = threads in
      if is_accept_ranges \<noteq> None then
        (case c_int_div content_size tasks of
           Inl e \<Rightarrow> Inl e
         | Inr d \<Rightarrow> Inr (tasks, g\<lparr>max_chunk_size := d\<rparr>))
      else Inr (1, g\<lparr>max_chunk_size := content_size\<rparr>))"

definition get_max_chunk_size :: "globals \<Rightarrow> c_int" where
  "get_max_chunk_size g = max_chunk_size g"

section \<open>C strings\<close>

text \<open>
  A C string is the run of bytes before the first NUL. The library functions below are
  modelled after the C standard; they read their arguments as C strings.
\<close>

definition NUL :: char where
  "NUL = CHR 0x00"

definition CR :: char where
  "CR = CHR 0x0D"

definition LF :: char where
  "LF = CHR 0x0A"

definition c_str :: "string \<Rightarrow> string" where
  "c_str s = takeWhile (\<lambda>c. c \<noteq> NUL) s"

text \<open>The offset of the first occurrence of \<open>needle\<close> in \<open>s\<close>.\<close>

fun find_sub :: "string \<Rightarrow> string \<Rightarrow> nat option" where
  "find_sub needle [] = (if needle = [] then Some 0 else None)"
| "find_sub needle (c # cs) =
     (if prefix needle (c # cs) then Some 0 else map_option Suc (find_sub needle cs))"

text \<open>\<^verbatim>\<open>strstr\<close>: a pointer to the first occurrence, as an offset into the haystack, or NULL.\<close>

definition strstr :: "string \<Rightarrow> string \<Rightarrow> char_ptr" where
  "strstr haystack needle = find_sub (c_str needle) (c_str haystack)"

text \<open>
  \<^verbatim>\<open>strncpy(dest, src, n)\<close>: the \<open>n\<close> bytes written to \<open>dest\<close>; the copy is padded with
  NUL, and has no terminator when \<open>src\<close> has \<open>n\<close> bytes or more.
\<close>

definition strncpy :: "string \<Rightarrow> nat \<Rightarrow> string" where
  "strncpy src n = take n (c_str src @ replicate n NUL)"

text \<open>\<^verbatim>\<open>strcat\<close> into an array of \<open>cap\<close> bytes that holds the C string \<open>dest\<close>.\<close>

definition strcat :: "nat \<Rightarrow> string \<Rightarrow> string \<Rightarrow> stop + string" where
  "strcat cap dest src =
     (if cap < length dest + length (c_str src) + 1 then Inl BufferOverflow
      else Inr (dest @ c_str src))"

definition is_digit :: "char \<Rightarrow> bool" where
  "is_digit c \<longleftrightarrow> (48 :: nat) \<le> of_char c \<and> (of_char c :: nat) \<le> 57"

definition is_space :: "char \<Rightarrow> bool" where
  "is_space c \<longleftrightarrow> (of_char c :: nat) = 32 \<or> ((9 :: nat) \<le> of_char c \<and> (of_char c :: nat) \<le> 13)"

definition digit_val :: "char \<Rightarrow> int" where
  "digit_val c = int (of_char c) - 48"

text \<open>The value of the leading decimal digits of a string, continuing from \<open>acc\<close>.\<close>

fun digits_value :: "int \<Rightarrow> string \<Rightarrow> int" where
  "digits_value acc [] = acc"
| "digits_value acc (c # cs) =
     (if is_digit c then digits_value (10 * acc + digit_val c) cs else acc)"

text \<open>
  \<^verbatim>\<open>atoi\<close>: optional white space, an optional sign, then decimal digits; a value that
  does not fit an \<^verbatim>\<open>int\<close> is undefined behaviour.
\<close>

definition atoi :: "string \<Rightarrow> stop + c_int" where
  "atoi s =
     (let t = dropWhile is_space (c_str s);
          neg = (case t of [] \<Rightarrow> False | c # cs \<Rightarrow> c = CHR ''-'');
          u = (case t of [] \<Rightarrow> [] | c # cs \<Rightarrow> if c = CHR ''-'' \<or> c = CHR ''+'' then cs else t);
          v = (if neg then - digits_value 0 u else digits_value 0 u)
      in if INT_MIN \<le> v \<and> v \<le> INT_MAX then Inr (word_of_int v) else Inl SignedOverflow)"

definition and_then :: "stop + 'a \<Rightarrow> ('a \<Rightarrow> stop + 'b) \<Rightarrow> stop + 'b" where
  "and_then m f = (case m of Inl s \<Rightarrow> Inl s | Inr a \<Rightarrow> f a)"

section \<open>http.c: the response parser\<close>

definition BUF_SIZE :: nat where
  "BUF_SIZE = 1024"

definition BUFSIZ :: nat where
  "BUFSIZ = 8192"

definition GET :: string where
  "GET = ''getter''"

definition HEAD :: string where
  "HEAD = ''header''"

text \<open>
  \<^verbatim>\<open>Buffer\<close> (declared in http.h): the bytes of \<^verbatim>\<open>data\<close> and the byte count
  \<^verbatim>\<open>length\<close>. The parsers read \<^verbatim>\<open>data\<close> as a C string, so the text of a response is
  \<open>c_str (data response)\<close>; a buffer without a NUL is read as if one followed its last
  byte.
\<close>

record Buffer =
  data :: string
  length_buf :: nat

text \<open>
  \<^verbatim>\<open>char* http_get_content(Buffer *response)\<close>: the returned pointer, as an offset into
  \<^verbatim>\<open>response->data\<close>.
\<close>

definition http_get_content :: "Buffer \<Rightarrow> nat" where
  "http_get_content response =
     (case strstr (data response) [CR, LF, CR, LF] of
        Some header_end \<Rightarrow> header_end + 4
      | None \<Rightarrow> 0)"

text \<open>
  The loop of \<^verbatim>\<open>get_content_size_by_head\<close> that copies the digits of the line into
  \<^verbatim>\<open>char length[BUF_SIZE]\<close>; \<open>length_arr\<close> holds the \<open>j\<close> bytes written so far.
\<close>

fun extract_digits :: "string \<Rightarrow> string \<Rightarrow> stop + string" where
  "extract_digits [] length_arr = Inr length_arr"
| "extract_digits (c # cs) length_arr =
     (if is_digit c then
        (if BUF_SIZE \<le> length length_arr then Inl BufferOverflow
         else extract_digits cs (length_arr @ [c]))
      else extract_digits cs length_arr)"

text \<open>
  \<^verbatim>\<open>int get_content_size_by_head(Buffer* response)\<close>. Neither result of \<^verbatim>\<open>strstr\<close> is
  tested: a NULL is passed on to \<^verbatim>\<open>strstr\<close>, or written through. The function
  overwrites the line feed that ends the line with NUL, so the buffer is returned too.
\<close>

definition get_content_size_by_head :: "Buffer \<Rightarrow> stop + (c_int \<times> Buffer)" where
  "get_content_size_by_head response =
     (case strstr (data response) ''Content-Length:'' of
        None \<Rightarrow> Inl NullDereference
      | Some content_length \<Rightarrow>
          (case strstr (drop content_length (data response)) [LF] of
             None \<Rightarrow> Inl NullDereference
           | Some content_length_end \<Rightarrow>
               (let data' = (data response)[content_length + content_length_end := NUL] in
                and_then (extract_digits (c_str (drop content_length data')) []) (\<lambda>length_arr.
                if BUF_SIZE \<le> length length_arr then Inl BufferOverflow
                else and_then (atoi length_arr) (\<lambda>content_size.
                  Inr (content_size, response\<lparr>data := data'\<rparr>))))))"

text \<open>Step 4 of \<^verbatim>\<open>get_num_tasks\<close>: the test for range support.\<close>

definition is_accept_ranges :: "Buffer \<Rightarrow> char_ptr" where
  "is_accept_ranges response = strstr (data response) ''Accept-Ranges: bytes''"

subsection \<open>Range support as the specification words it\<close>

text \<open>
  The specification of the parser says: true iff an \<^verbatim>\<open>Accept-Ranges: bytes\<close> header line
  is present. \<open>acceptsRanges\<close> follows these words, to be compared with
  \<open>is_accept_ranges\<close>: the header section is the text before the first empty line (all
  of the text when there is none), its lines are what CR LF separates, and one of them
  is \<^verbatim>\<open>Accept-Ranges: bytes\<close>.
\<close>

fun split_crlf :: "string \<Rightarrow> string \<Rightarrow> string list" where
  "split_crlf cur [] = [cur]"
| "split_crlf cur [c] = [cur @ [c]]"
| "split_crlf cur (c # d # cs) =
     (if c = CR \<and> d = LF then cur # split_crlf [] cs else split_crlf (cur @ [c]) (d # cs))"

definition header_section :: "string \<Rightarrow> string" where
  "header_section text =
     (case find_sub [CR, LF, CR, LF] text of Some i \<Rightarrow> take i text | None \<Rightarrow> text)"

definition acceptsRanges :: "Buffer \<Rightarrow> bool" where
  "acceptsRanges buffer \<longleftrightarrow>
     ''Accept-Ranges: bytes'' \<in> set (split_crlf [] (header_section (c_str (data buffer))))"

section \<open>http.c: the transport\<close>

text \<open>
  What the process does to the outside, in order, and what the outside answers in one
  run: the results of \<^verbatim>\<open>getaddrinfo\<close>, \<^verbatim>\<open>socket\<close>, \<^verbatim>\<open>connect\<close> and \<^verbatim>\<open>write\<close>, and
  the bytes that the \<open>i\<close>-th call of \<^verbatim>\<open>read\<close> delivers (none when \<^verbatim>\<open>read\<close> returns 0 or
  less). Allocation is taken to succeed.
\<close>

datatype event =
    Connect string c_int
  | Write string
  | Close
  | Perror string
  | Printf string
  | Stderr string

record world =
  getaddrinfo_rc :: c_int
  socket_fd :: c_int
  connect_rc :: c_int
  write_rc :: c_int
  read_data :: "nat \<Rightarrow> string"

text \<open>A peer that closes the connection without sending a byte.\<close>

definition silent_peer :: "nat \<Rightarrow> string" where
  "silent_peer i = []"

type_synonym 'a run = "event list \<times> (stop + 'a)"

definition client_socket :: "world \<Rightarrow> string \<Rightarrow> c_int \<Rightarrow> c_int run" where
  "client_socket w host_name server_port =
     (if getaddrinfo_rc w \<noteq> 0 then ([], Inl UninitialisedPointer)
      else if connect_rc w = - 1 then
        ([Connect host_name server_port, Perror (''>>Connection error with server'' @ [LF])],
         Inl (Exit 1))
      else ([Connect host_name server_port], Inr (socket_fd w)))"

definition pack_http_request :: "string \<Rightarrow> string option \<Rightarrow> string option \<Rightarrow> string \<Rightarrow> stop + string" where
  "pack_http_request host page range_arg method =
     and_then (strcat 1024 [] (if c_str method = HEAD then ''HEAD /'' else ''GET /'')) (\<lambda>p.
     and_then (case page of None \<Rightarrow> Inl NullDereference | Some pg \<Rightarrow> strcat 1024 p pg) (\<lambda>p.
     and_then (strcat 1024 p ('' HTTP/1.0'' @ [CR, LF])) (\<lambda>p.
     and_then (strcat 1024 p ''Host: '') (\<lambda>p.
     and_then (strcat 1024 p host) (\<lambda>p.
     and_then (strcat 1024 p [CR, LF]) (\<lambda>p.
     and_then (case range_arg of
                 None \<Rightarrow> Inr p
               | Some r \<Rightarrow>
                   if 0 < length (c_str r) then
                     and_then (strcat 1024 p ''Range: bytes='') (\<lambda>p.
                     and_then (strcat 1024 p r) (\<lambda>p.
                     strcat 1024 p [CR, LF]))
                   else Inr p) (\<lambda>p.
     and_then (strcat 1024 p ''User-Agent: '') (\<lambda>p.
     and_then (strcat 1024 p ''getter'') (\<lambda>p.
     strcat 1024 p [CR, LF, CR, LF])))))))))"

definition send_http_request :: "world \<Rightarrow> c_int \<Rightarrow> string \<Rightarrow> c_int run" where
  "send_http_request w client_sockfd http_request =
     (let result = write_rc w in
      if sint result < 0 then
        ([Write http_request, Printf (''>>Send http request error!'' @ [LF])], Inl (Exit 1))
      else ([Write http_request], Inr result))"

text \<open>
  The receive loop of \<^verbatim>\<open>http_query\<close> and \<^verbatim>\<open>get_num_tasks\<close>, at its \<open>i\<close>-th call of
  \<^verbatim>\<open>read\<close>. It ends when \<^verbatim>\<open>read\<close> delivers nothing; against a peer that keeps sending
  it never does, which is the value \<open>None\<close>.
\<close>

partial_function (option) receive_loop :: "(nat \<Rightarrow> string) \<Rightarrow> nat \<Rightarrow> Buffer \<Rightarrow> Buffer option" where
  "receive_loop rd i response =
     (if 0 < length (rd i) then
        receive_loop rd (Suc i)
          \<lparr>data = take (length_buf response) (data response) @ rd i,
           length_buf = length_buf response + length (rd i)\<rparr>
      else Some response)"

definition fresh_response :: Buffer where
  "fresh_response = \<lparr>data = replicate BUFSIZ NUL, length_buf = 0\<rparr>"

text \<open>
  \<^verbatim>\<open>Buffer* http_query(char *host, char *page, const char *range, int port)\<close>. The
  result is \<open>None\<close> when the call never returns; the returned pointer is \<open>Some\<close> buffer,
  or \<open>None\<close> for NULL.
\<close>

definition http_query :: "world \<Rightarrow> string \<Rightarrow> string option \<Rightarrow> string option \<Rightarrow> c_int \<Rightarrow> Buffer option run option" where
  "http_query w host page range_arg port =
     (case client_socket w host port of
        (es1, Inl s) \<Rightarrow> Some (es1, Inl s)
      | (es1, Inr client_sockfd) \<Rightarrow>
          (case pack_http_request host page range_arg GET of
             Inl s \<Rightarrow> Some (es1, Inl s)
           | Inr http_request \<Rightarrow>
               (case send_http_request w client_sockfd http_request of
                  (es2, Inl s) \<Rightarrow> Some (es1 @ es2, Inl s)
                | (es2, Inr n) \<Rightarrow>
                    (case receive_loop (read_data w) 0 fresh_response of
                       None \<Rightarrow> None
                     | Some response \<Rightarrow> Some (es1 @ es2 @ [Close], Inr (Some response))))))"

definition split_message :: "string \<Rightarrow> string" where
  "split_message url = ''could not split url into host/page '' @ c_str url @ [LF]"

text \<open>
  \<^verbatim>\<open>Buffer *http_url(const char *url, const char *range)\<close>. A url of \<^verbatim>\<open>BUF_SIZE\<close> bytes
  or more leaves \<^verbatim>\<open>host\<close> without a terminator, and the reads that follow leave the
  array.
\<close>

definition http_url :: "world \<Rightarrow> string \<Rightarrow> string option \<Rightarrow> Buffer option run option" where
  "http_url w url range_arg =
     (let host = strncpy url BUF_SIZE in
      if NUL \<notin> set host then Some ([], Inl OutOfBounds)
      else
        (case strstr host ''/'' of
           Some page \<Rightarrow>
             http_query w (c_str (host[page := NUL])) (Some (c_str (drop (Suc page) host))) range_arg 80
         | None \<Rightarrow> Some ([Stderr (split_message url)], Inr None)))"

text \<open>
  \<^verbatim>\<open>int get_num_tasks(char *url, int threads)\<close>. When the url has no \<^verbatim>\<open>/\<close> the
  message is printed and the function goes on with \<^verbatim>\<open>page\<close> being NULL.
\<close>

definition get_num_tasks :: "world \<Rightarrow> string \<Rightarrow> c_int \<Rightarrow> globals \<Rightarrow> (c_int \<times> globals) run option" where
  "get_num_tasks w url threads g =
     (let host = strncpy url BUF_SIZE in
      if NUL \<notin> set host then Some ([], Inl OutOfBounds)
      else
        (let found = strstr host ''/'';
             es0 = (case found of Some p \<Rightarrow> [] | None \<Rightarrow> [Stderr (split_message url)]);
             host' = (case found of Some p \<Rightarrow> c_str (host[p := NUL]) | None \<Rightarrow> c_str host);
             page = (case found of Some p \<Rightarrow> Some (c_str (drop (Suc p) host)) | None \<Rightarrow> None)
         in
         (case client_socket w host' 80 of
            (es1, Inl s) \<Rightarrow> Some (es0 @ es1, Inl s)
          | (es1, Inr client_sockfd) \<Rightarrow>
              (case pack_http_request host' page (Some []) HEAD of
                 Inl s \<Rightarrow> Some (es0 @ es1, Inl s)
               | Inr head_http_request \<Rightarrow>
                   (case send_http_request w client_sockfd head_http_request of
                      (es2, Inl s) \<Rightarrow> Some (es0 @ es1 @ es2, Inl s)
                    | (es2, Inr n) \<Rightarrow>
                        (case receive_loop (read_data w) 0 fresh_response of
                           None \<Rightarrow> None
                         | Some response \<Rightarrow>
                             (case and_then (get_content_size_by_head response)
                                     (\<lambda>(content_size, response').
                                        calc_tasks (is_accept_ranges response) content_size threads g) of
                                Inl s \<Rightarrow> Some (es0 @ es1 @ es2, Inl s)
                              | Inr tasks \<Rightarrow> Some (es0 @ es1 @ es2 @ [Close], Inr tasks))))))))"

section \<open>queue.c: the bounded queue\<close>

text \<open>
  An item is a \<^verbatim>\<open>void *\<close>: NULL or a handle. A slot of the array that \<^verbatim>\<open>malloc\<close>
  returned holds an indeterminate value until it is written. A semaphore holds its
  count once \<^verbatim>\<open>sem_init\<close> has succeeded. \<^verbatim>\<open>size_t\<close> has 64 bits.
\<close>

type_synonym 'a ptr = "'a option"

datatype 'a slot = Indeterminate | Stored "'a ptr"

type_synonym sem_t = "nat option"

definition SEM_VALUE_MAX :: nat where
  "SEM_VALUE_MAX = 2147483647"

definition sem_init :: "nat \<Rightarrow> sem_t" where
  "sem_init v = (if v \<le> SEM_VALUE_MAX then Some v else None)"

text \<open>\<^verbatim>\<open>sem_wait\<close> in a run with no other thread: a count of 0 blocks for ever.\<close>

definition sem_wait :: "sem_t \<Rightarrow> stop + sem_t" where
  "sem_wait s =
     (case s of
        None \<Rightarrow> Inl UninitialisedSemaphore
      | Some n \<Rightarrow> if n = 0 then Inl Blocks else Inr (Some (n - 1)))"

text \<open>\<^verbatim>\<open>sem_post\<close>: at the maximal count the call fails and leaves the count as it is.\<close>

definition sem_post :: "sem_t \<Rightarrow> stop + sem_t" where
  "sem_post s =
     (case s of
        None \<Rightarrow> Inl UninitialisedSemaphore
      | Some n \<Rightarrow> if n = SEM_VALUE_MAX then Inr (Some n) else Inr (Some (n + 1)))"

definition size_t_inc :: "nat \<Rightarrow> nat" where
  "size_t_inc n = (n + 1) mod 2 ^ 64"

definition size_t_dec :: "nat \<Rightarrow> nat" where
  "size_t_dec n = (n + (2 ^ 64 - 1)) mod 2 ^ 64"

text \<open>
  \<^verbatim>\<open>struct QueueStruct\<close>. \<open>task\<close> is \<open>None\<close> when the pointer is NULL; \<open>mutex\<close> tells
  whether the mutex is held.
\<close>

record 'a Queue =
  full :: sem_t
  empty :: sem_t
  task :: "'a slot list option"
  size_q :: nat
  mutex :: bool

text \<open>
  \<^verbatim>\<open>Queue *queue_alloc(int size)\<close>. The argument of \<^verbatim>\<open>malloc\<close> is
  \<^verbatim>\<open>sizeof(void**) * size\<close> in \<^verbatim>\<open>size_t\<close>: for a negative \<open>size\<close> it is beyond what can be
  allocated, and \<open>task\<close> is NULL; the argument of \<^verbatim>\<open>sem_init\<close> is \<open>size\<close> converted to
  \<^verbatim>\<open>unsigned\<close>. No result of these calls is tested. The returned pointer is \<open>Some\<close>
  queue, or \<open>None\<close> for NULL.
\<close>

definition queue_alloc :: "c_int \<Rightarrow> 'a Queue option" where
  "queue_alloc size_arg =
     Some \<lparr>full = sem_init 0,
           empty = sem_init (unat size_arg),
           task = (if 0 \<le> sint size_arg then Some (replicate (nat (sint size_arg)) Indeterminate)
                   else None),
           size_q = 0,
           mutex = False\<rparr>"

text \<open>\<^verbatim>\<open>void queue_put(Queue *queue, void *item)\<close>.\<close>

definition queue_put :: "'a Queue \<Rightarrow> 'a ptr \<Rightarrow> stop + 'a Queue" where
  "queue_put queue item =
     and_then (sem_wait (empty queue)) (\<lambda>e.
     if mutex queue then Inl Blocks
     else
       (case task queue of
          None \<Rightarrow> Inl NullDereference
        | Some t \<Rightarrow>
            if length t \<le> size_q queue then Inl OutOfBounds
            else
              and_then (sem_post (full queue)) (\<lambda>f.
              Inr (queue\<lparr>full := f,
                         empty := e,
                         task := Some (t[size_q queue := Stored item]),
                         size_q := size_t_inc (size_q queue)\<rparr>))))"

text \<open>
  The loop of \<^verbatim>\<open>queue_get\<close> that moves each item one slot forward, at index \<open>i\<close>, with
  \<open>n\<close> being \<^verbatim>\<open>queue->size\<close>.
\<close>

function shift_loop :: "nat \<Rightarrow> nat \<Rightarrow> 'a slot list \<Rightarrow> stop + 'a slot list" where
  "shift_loop i n t =
     (if i < n then
        (if length t \<le> i then Inl OutOfBounds
         else
           (case t ! i of
              Indeterminate \<Rightarrow> Inl UninitialisedPointer
            | Stored p \<Rightarrow> shift_loop (Suc i) n (t[i - 1 := Stored p])))
      else Inr t)"
  by pat_completeness auto
termination
  by (relation "measure (\<lambda>(i, n, t). n - i)") auto

declare shift_loop.simps [simp del]

text \<open>\<^verbatim>\<open>void *queue_get(Queue *queue)\<close>: the item returned and the queue afterwards.\<close>

definition queue_get :: "'a Queue \<Rightarrow> stop + ('a ptr \<times> 'a Queue)" where
  "queue_get queue =
     and_then (sem_wait (full queue)) (\<lambda>f.
     if mutex queue then Inl Blocks
     else
       (case task queue of
          None \<Rightarrow> Inl NullDereference
        | Some t \<Rightarrow>
            if length t = 0 then Inl OutOfBounds
            else
              (case t ! 0 of
                 Indeterminate \<Rightarrow> Inl UninitialisedPointer
               | Stored item \<Rightarrow>
                   and_then (shift_loop 1 (size_q queue) t) (\<lambda>t'.
                   if length t' \<le> size_t_dec (size_q queue) then Inl OutOfBounds
                   else
                     and_then (sem_post (empty queue)) (\<lambda>e.
                     Inr (item,
                          queue\<lparr>full := f,
                                empty := e,
                                task := Some (t'[size_t_dec (size_q queue) := Stored None]),
                                size_q := size_t_dec (size_q queue)\<rparr>))))))"

text \<open>Sequences of calls made by one thread: the first call that does not return ends the run.\<close>

fun put_all :: "'a Queue \<Rightarrow> 'a ptr list \<Rightarrow> stop + 'a Queue" where
  "put_all queue [] = Inr queue"
| "put_all queue (item # items) = and_then (queue_put queue item) (\<lambda>queue'. put_all queue' items)"

fun get_n :: "'a Queue \<Rightarrow> nat \<Rightarrow> stop + ('a ptr list \<times> 'a Queue)" where
  "get_n queue 0 = Inr ([], queue)"
| "get_n queue (Suc n) =
     and_then (queue_get queue) (\<lambda>(item, queue').
     and_then (get_n queue' n) (\<lambda>(items, queue'').
     Inr (item # items, queue'')))"

datatype 'a call = Put "'a ptr" | Get

fun run_calls :: "'a Queue \<Rightarrow> 'a call list \<Rightarrow> stop + 'a Queue" where
  "run_calls queue [] = Inr queue"
| "run_calls queue (Put item # cs) = and_then (queue_put queue item) (\<lambda>queue'. run_calls queue' cs)"
| "run_calls queue (Get # cs) = and_then (queue_get queue) (\<lambda>(item, queue'). run_calls queue' cs)"

text \<open>
  The state of a queue of capacity \<open>k\<close> between two calls: \<open>k\<close> slots, of which the
  first \<open>size_q\<close> are written; the semaphores count the written and the free slots.
\<close>

definition queue_inv :: "nat \<Rightarrow> 'a Queue \<Rightarrow> bool" where
  "queue_inv k queue \<longleftrightarrow>
     k \<le> SEM_VALUE_MAX \<and> size_q queue \<le> k \<and> \<not> mutex queue
     \<and> full queue = Some (size_q queue) \<and> empty queue = Some (k - size_q queue)
     \<and> (case task queue of
          None \<Rightarrow> False
        | Some t \<Rightarrow> length t = k \<and> Indeterminate \<notin> set (take (size_q queue) t))"

text \<open>The items a queue holds, head first.\<close>

definition stored :: "'a slot \<Rightarrow> 'a ptr" where
  "stored s = (case s of Indeterminate \<Rightarrow> None | Stored p \<Rightarrow> p)"

definition items_of :: "'a Queue \<Rightarrow> 'a ptr list" where
  "items_of queue = (case task queue of None \<Rightarrow> [] | Some t \<Rightarrow> map stored (take (size_q queue) t))"

section \<open>Properties of the chunk planner\<close>

lemma sdiv_nonneg_eq_div:
  fixes a b :: int
  assumes "0 \<le> a" and "1 \<le> b"
  shows "a sdiv b = a div b"
proof -
  have "sgn b = 1" using assms(2) by simp
  moreover have "sgn a * (\<bar>a\<bar> div \<bar>b\<bar>) = a div b"
  proof (cases "a = 0")
    case True
    then show ?thesis by simp
  next
    case False
    with assms(1) have "0 < a" by simp
    then have "sgn a = 1" by simp
    with assms show ?thesis by simp
  qed
  ultimately show ?thesis
    by (simp add: signed_divide_int_def)
qed

lemma sint_quotient_in_range:
  fixes c t :: c_int
  assumes "0 \<le> sint c" and "1 \<le> sint t"
  shows "sint (word_of_int (sint c div sint t) :: c_int) = sint c div sint t"
proof -
  have up: "sint c < 2 ^ 31"
    using sint_lt [of c] by simp
  have lo: "0 \<le> sint c div sint t"
    using assms by (simp add: pos_imp_zdiv_nonneg_iff)
  have "sint c div sint t \<le> sint c"
  proof (cases "sint c = 0")
    case True
    then show ?thesis by simp
  next
    case False
    with assms(1) have "0 < sint c" by simp
    then show ?thesis by (rule int_div_le_self)
  qed
  with up have hi: "sint c div sint t < 2 ^ 31" by linarith
  show ?thesis
    using lo hi by (simp add: sint_sbintrunc' signed_take_bit_int_eq_self)
qed

lemma c_int_div_nonneg:
  fixes c t :: c_int
  assumes "0 \<le> sint c" and "1 \<le> sint t"
  shows "c_int_div c t = Inr (word_of_int (sint c div sint t))"
proof -
  have "t \<noteq> 0" using assms(2) by auto
  moreover have "sint t \<noteq> - 1" using assms(2) by simp
  ultimately show ?thesis
    using assms by (simp add: c_int_div_def sdiv_nonneg_eq_div)
qed

text \<open>
  C1. For every content size \<open>c \<ge> 0\<close> and thread count \<open>t \<ge> 1\<close>: with range support
  (a non-NULL \<^verbatim>\<open>is_accept_ranges\<close>) \<^verbatim>\<open>calc_tasks\<close> returns \<open>t\<close> tasks and sets the chunk
  size to \<open>c div t\<close>; without range support it returns 1 task and sets the chunk size
  to \<open>c\<close>. For \<open>c = 1000\<close>, \<open>t = 4\<close> with range support: 4 tasks of chunk size 250.
\<close>

theorem calc_tasks_plan:
  fixes c t :: c_int
  assumes "0 \<le> sint c" and "1 \<le> sint t"
  shows "(\<exists>g'. calc_tasks (Some p) c t g = Inr (t, g')
            \<and> sint (get_max_chunk_size g') = sint c div sint t)
       \<and> (\<exists>g'. calc_tasks None c t g = Inr (1, g') \<and> get_max_chunk_size g' = c)
       \<and> (\<exists>g'. calc_tasks (Some p) 1000 4 g = Inr (4, g') \<and> get_max_chunk_size g' = 250)"
proof -
  have a: "calc_tasks (Some p) c t g
         = Inr (t, g\<lparr>max_chunk_size := word_of_int (sint c div sint t)\<rparr>)"
    using assms by (simp add: calc_tasks_def c_int_div_nonneg)
  have b: "calc_tasks None c t g = Inr (1, g\<lparr>max_chunk_size := c\<rparr>)"
    by (simp add: calc_tasks_def)
  have c: "calc_tasks (Some p) 1000 4 g = Inr (4, g\<lparr>max_chunk_size := 250\<rparr>)"
    by (simp add: calc_tasks_def c_int_div_def INT_MIN_def signed_divide_int_def)
  show ?thesis
    using a b c assms by (simp add: get_max_chunk_size_def sint_quotient_in_range)
qed

theorem calc_tasks_plan_witness:
  "0 \<le> sint (1003 :: c_int) \<and> 1 \<le> sint (4 :: c_int)
   \<and> (\<exists>g'. calc_tasks (Some 17) 1003 4 \<lparr>max_chunk_size = 0\<rparr> = Inr (4, g')
            \<and> sint (get_max_chunk_size g') = 250)
   \<and> (\<exists>g'. calc_tasks None 1003 4 \<lparr>max_chunk_size = 0\<rparr> = Inr (1, g')
            \<and> get_max_chunk_size g' = 1003)"
proof -
  have h1: "0 \<le> sint (1003 :: c_int)" by simp
  have h2: "1 \<le> sint (4 :: c_int)" by simp
  show ?thesis
    using calc_tasks_plan [OF h1 h2, of 17 "\<lparr>max_chunk_size = 0\<rparr>"] by simp
qed

text \<open>
  C7. For content size 0 and every thread count \<open>t \<ge> 1\<close>, with or without range
  support, \<^verbatim>\<open>calc_tasks\<close> returns (no division by zero happens), the number of tasks
  is at least 1 and the chunk size is 0.
\<close>

theorem calc_tasks_zero_content:
  fixes t :: c_int
  assumes "1 \<le> sint t"
  shows "\<exists>n g'. calc_tasks r 0 t g = Inr (n, g') \<and> 1 \<le> sint n \<and> get_max_chunk_size g' = 0"
proof (cases r)
  case None
  then show ?thesis
    by (simp add: calc_tasks_def get_max_chunk_size_def)
next
  case (Some p)
  have "c_int_div 0 t = Inr (word_of_int (sint (0 :: c_int) div sint t))"
    using assms by (intro c_int_div_nonneg) simp_all
  then have "c_int_div 0 t = Inr 0" by simp
  with Some assms show ?thesis
    by (simp add: calc_tasks_def get_max_chunk_size_def)
qed

theorem calc_tasks_zero_content_witness:
  "1 \<le> sint (5 :: c_int)
   \<and> (\<exists>n g'. calc_tasks (Some 0) 0 5 \<lparr>max_chunk_size = 7\<rparr> = Inr (n, g')
         \<and> 1 \<le> sint n \<and> get_max_chunk_size g' = 0)"
proof -
  have h: "1 \<le> sint (5 :: c_int)" by simp
  show ?thesis
    using h calc_tasks_zero_content [OF h, of "Some 0" "\<lparr>max_chunk_size = 7\<rparr>"] by simp
qed

section \<open>Properties of the response parser\<close>

subsection \<open>Searching a string\<close>

lemma find_sub_SomeD:
  assumes "find_sub n s = Some i"
  shows "i \<le> length s \<and> prefix n (drop i s) \<and> (\<forall>j<i. \<not> prefix n (drop j s))"
  using assms
proof (induction s arbitrary: i)
  case Nil
  then show ?case by (simp split: if_splits)
next
  case (Cons c cs)
  show ?case
  proof (cases "prefix n (c # cs)")
    case True
    with Cons.prems show ?thesis by simp
  next
    case False
    with Cons.prems obtain i' where i': "find_sub n cs = Some i'" "i = Suc i'"
      by auto
    from Cons.IH [OF i'(1)] have ih: "i' \<le> length cs" "prefix n (drop i' cs)"
      "\<forall>j<i'. \<not> prefix n (drop j cs)" by simp_all
    have "\<forall>j<i. \<not> prefix n (drop j (c # cs))"
    proof (intro allI impI)
      fix j assume "j < i"
      then show "\<not> prefix n (drop j (c # cs))"
        using False ih(3) i'(2) by (cases j) auto
    qed
    with ih i'(2) show ?thesis by simp
  qed
qed

lemma find_sub_NoneD:
  assumes "find_sub n s = None"
  shows "\<not> prefix n (drop j s)"
  using assms
proof (induction s arbitrary: j)
  case Nil
  then show ?case by (simp split: if_splits)
next
  case (Cons c cs)
  then have np: "\<not> prefix n (c # cs)" and rest: "find_sub n cs = None"
    by (auto split: if_splits)
  show ?case
  proof (cases j)
    case 0
    with np show ?thesis by simp
  next
    case (Suc j')
    with Cons.IH [OF rest] show ?thesis by simp
  qed
qed

lemma sublist_iff_prefix_drop:
  "sublist n s \<longleftrightarrow> (\<exists>j. prefix n (drop j s))"
proof
  assume "sublist n s"
  then obtain ps ss where "s = ps @ n @ ss" by (auto simp: sublist_def)
  then have "prefix n (drop (length ps) s)" by simp
  then show "\<exists>j. prefix n (drop j s)" ..
next
  assume "\<exists>j. prefix n (drop j s)"
  then obtain j ss where "drop j s = n @ ss" by (auto simp: prefix_def)
  then have "s = take j s @ n @ ss" by (metis append_take_drop_id)
  then show "sublist n s" by (auto simp: sublist_def)
qed

lemma find_sub_None_iff: "find_sub n s = None \<longleftrightarrow> \<not> sublist n s"
proof
  assume "find_sub n s = None"
  then show "\<not> sublist n s"
    by (simp add: sublist_iff_prefix_drop find_sub_NoneD)
next
  assume ns: "\<not> sublist n s"
  show "find_sub n s = None"
  proof (cases "find_sub n s")
    case None
    then show ?thesis .
  next
    case (Some i)
    then have "prefix n (drop i s)" by (simp add: find_sub_SomeD)
    with ns show ?thesis by (auto simp: sublist_iff_prefix_drop)
  qed
qed

lemma find_sub_first:
  assumes "prefix n (drop i s)" and "i \<le> length s" and "\<forall>j<i. \<not> prefix n (drop j s)"
  shows "find_sub n s = Some i"
proof (cases "find_sub n s")
  case None
  with assms(1) show ?thesis by (simp add: find_sub_NoneD)
next
  case (Some k)
  from find_sub_SomeD [OF Some] have k: "prefix n (drop k s)" "\<forall>j<k. \<not> prefix n (drop j s)"
    by simp_all
  have "k = i"
  proof (rule ccontr)
    assume "k \<noteq> i"
    then consider "k < i" | "i < k" by linarith
    then show False
      using k assms by cases auto
  qed
  with Some show ?thesis by simp
qed

lemma c_str_no_NUL: "NUL \<notin> set s \<Longrightarrow> c_str s = s"
  by (auto simp: c_str_def)

lemma c_str_separator [simp]: "c_str [CR, LF, CR, LF] = [CR, LF, CR, LF]"
  by (simp add: c_str_def CR_def LF_def NUL_def)

lemma http_get_content_found:
  assumes "c_str (data r) = pre @ [CR, LF, CR, LF] @ post"
    and "\<forall>j<length pre. \<not> prefix [CR, LF, CR, LF] (drop j (c_str (data r)))"
  shows "http_get_content r = length pre + 4"
    and "drop (http_get_content r) (c_str (data r)) = post"
proof -
  have "prefix [CR, LF, CR, LF] (drop (length pre) (c_str (data r)))"
    using assms(1) by simp
  moreover have "length pre \<le> length (c_str (data r))"
    using assms(1) by simp
  ultimately have "find_sub [CR, LF, CR, LF] (c_str (data r)) = Some (length pre)"
    using assms(2) by (rule find_sub_first)
  then show "http_get_content r = length pre + 4"
    by (simp add: http_get_content_def strstr_def)
  then show "drop (http_get_content r) (c_str (data r)) = post"
    using assms(1) by simp
qed

lemma http_get_content_not_found:
  assumes "\<not> sublist [CR, LF, CR, LF] (c_str (data r))"
  shows "http_get_content r = 0"
  using assms by (simp add: http_get_content_def strstr_def find_sub_None_iff [symmetric])

lemma first_occurrence:
  fixes n s :: string
  assumes "sublist n s"
  shows "\<exists>pre post. s = pre @ n @ post \<and> (\<forall>j<length pre. \<not> prefix n (drop j s))"
proof -
  from assms have "find_sub n s \<noteq> None" by (simp add: find_sub_None_iff)
  then obtain i where i: "find_sub n s = Some i" by auto
  from find_sub_SomeD [OF i] have le: "i \<le> length s" and p: "prefix n (drop i s)"
    and first: "\<forall>j<i. \<not> prefix n (drop j s)" by simp_all
  from p obtain post where "drop i s = n @ post" by (auto simp: prefix_def)
  then have "s = take i s @ n @ post" by (metis append_take_drop_id)
  moreover have "length (take i s) = i" using le by simp
  ultimately show ?thesis using first by metis
qed


subsection \<open>Splitting header and body\<close>

text \<open>
  C6, as stated: for every response buffer \<^verbatim>\<open>http_get_content\<close> returns the offset of the
  first byte after the first occurrence of the separator CR LF CR LF in the buffer.
  It does not: \<^verbatim>\<open>strstr\<close> stops at the first NUL byte. In the buffer of the 9 bytes
  \<^verbatim>\<open>ab\<close>, NUL, CR LF CR LF, \<^verbatim>\<open>cd\<close> the separator first occurs at offset 3, and the function
  returns offset 0, not 7.
\<close>

theorem http_get_content_counterexample:
  "find_sub [CR, LF, CR, LF]
       (data \<lparr>data = ''ab'' @ [NUL, CR, LF, CR, LF] @ ''cd'', length_buf = 9\<rparr>)
     = Some 3
   \<and> http_get_content \<lparr>data = ''ab'' @ [NUL, CR, LF, CR, LF] @ ''cd'', length_buf = 9\<rparr> = 0
   \<and> http_get_content \<lparr>data = ''ab'' @ [NUL, CR, LF, CR, LF] @ ''cd'', length_buf = 9\<rparr>
       \<noteq> 3 + 4"
  by (simp add: http_get_content_def strstr_def c_str_def NUL_def CR_def LF_def)

text \<open>
  C6, amended. Read the buffer as the C string that starts at \<^verbatim>\<open>response->data\<close>, the
  bytes before the first NUL. \<^verbatim>\<open>http_get_content\<close> returns the offset of the first byte
  after the first occurrence of the separator CR LF CR LF in this string. When the
  string has no separator (also when one occurs only after a NUL) it returns offset
  0, which is the whole buffer: on a buffer whose string is only a body the function
  changes nothing, and applying it to its own result gives the same again.
\<close>

theorem http_get_content_split:
  "(\<forall>pre post. c_str (data r) = pre @ [CR, LF, CR, LF] @ post
        \<and> (\<forall>j<length pre. \<not> prefix [CR, LF, CR, LF] (drop j (c_str (data r))))
      \<longrightarrow> http_get_content r = length pre + 4
        \<and> drop (http_get_content r) (c_str (data r)) = post)
   \<and> (sublist [CR, LF, CR, LF] (c_str (data r))
      \<longrightarrow> (\<exists>pre post. c_str (data r) = pre @ [CR, LF, CR, LF] @ post
            \<and> (\<forall>j<length pre. \<not> prefix [CR, LF, CR, LF] (drop j (c_str (data r))))))
   \<and> (\<not> sublist [CR, LF, CR, LF] (c_str (data r))
      \<longrightarrow> http_get_content r = 0
        \<and> drop (http_get_content r) (data r) = data r
        \<and> http_get_content (r\<lparr>data := drop (http_get_content r) (data r)\<rparr>) = 0)"
proof (intro conjI allI impI)
  fix pre post
  assume a: "c_str (data r) = pre @ [CR, LF, CR, LF] @ post
        \<and> (\<forall>j<length pre. \<not> prefix [CR, LF, CR, LF] (drop j (c_str (data r))))"
  then show "http_get_content r = length pre + 4"
    using http_get_content_found(1) by blast
  from a show "drop (http_get_content r) (c_str (data r)) = post"
    using http_get_content_found(2) by blast
next
  assume "sublist [CR, LF, CR, LF] (c_str (data r))"
  then show "\<exists>pre post. c_str (data r) = pre @ [CR, LF, CR, LF] @ post
            \<and> (\<forall>j<length pre. \<not> prefix [CR, LF, CR, LF] (drop j (c_str (data r))))"
    by (rule first_occurrence)
next
  assume n: "\<not> sublist [CR, LF, CR, LF] (c_str (data r))"
  then show z: "http_get_content r = 0" by (rule http_get_content_not_found)
  then show "drop (http_get_content r) (data r) = data r" by simp
  from z n show "http_get_content (r\<lparr>data := drop (http_get_content r) (data r)\<rparr>) = 0"
    by (simp add: http_get_content_not_found)
qed

theorem http_get_content_split_witness:
  "c_str (data \<lparr>data = ''HTTP/1.0 200 OK'' @ [CR, LF, CR, LF] @ ''ab'' @ [CR, LF, CR, LF] @ ''cd'',
              length_buf = 27\<rparr>)
     = ''HTTP/1.0 200 OK'' @ [CR, LF, CR, LF] @ (''ab'' @ [CR, LF, CR, LF] @ ''cd'')
   \<and> find_sub [CR, LF, CR, LF]
         (c_str (data \<lparr>data = ''HTTP/1.0 200 OK'' @ [CR, LF, CR, LF] @ ''ab''
                            @ [CR, LF, CR, LF] @ ''cd'', length_buf = 27\<rparr>)) = Some 15
   \<and> http_get_content \<lparr>data = ''HTTP/1.0 200 OK'' @ [CR, LF, CR, LF] @ ''ab''
                                   @ [CR, LF, CR, LF] @ ''cd'', length_buf = 27\<rparr> = 19
   \<and> \<not> sublist [CR, LF, CR, LF] (c_str (data \<lparr>data = ''only a body'', length_buf = 11\<rparr>))
   \<and> http_get_content \<lparr>data = ''only a body'', length_buf = 11\<rparr> = 0"
proof -
  let ?text = "''HTTP/1.0 200 OK'' @ [CR, LF, CR, LF] @ ''ab'' @ [CR, LF, CR, LF] @ ''cd''"
  let ?full = "\<lparr>data = ?text, length_buf = 27\<rparr>"
  let ?body = "\<lparr>data = ''only a body'', length_buf = 11\<rparr>"
  have t: "c_str (data ?full)
     = ''HTTP/1.0 200 OK'' @ [CR, LF, CR, LF] @ (''ab'' @ [CR, LF, CR, LF] @ ''cd'')"
    by (simp add: c_str_def NUL_def CR_def LF_def)
  have at: "find_sub [CR, LF, CR, LF] (c_str (data ?full)) = Some 15"
    by (simp add: c_str_def NUL_def CR_def LF_def)
  from find_sub_SomeD [OF this]
  have first: "\<forall>j<length ''HTTP/1.0 200 OK''. \<not> prefix [CR, LF, CR, LF] (drop j (c_str (data ?full)))"
    by simp
  have "find_sub [CR, LF, CR, LF] (c_str (data ?body)) = None"
    by (simp add: c_str_def NUL_def CR_def LF_def)
  then have none: "\<not> sublist [CR, LF, CR, LF] (c_str (data ?body))"
    by (simp add: find_sub_None_iff)
  from http_get_content_split [of ?full] t first
  have "http_get_content ?full = length ''HTTP/1.0 200 OK'' + 4" by blast
  then have a: "http_get_content ?full = 19" by simp
  from http_get_content_split [of ?body] none
  have b: "http_get_content ?body = 0" by blast
  from t at a none b show ?thesis by blast
qed


subsection \<open>Range support\<close>

lemma c_str_accept [simp]: "c_str ''Accept-Ranges: bytes'' = ''Accept-Ranges: bytes''"
  by (simp add: c_str_def NUL_def)


text \<open>
  C5, as stated: range support is detected exactly when an \<^verbatim>\<open>Accept-Ranges: bytes\<close>
  header line is present in the header section. It is not: the text is found in a
  body, and inside the value of another header, of responses whose header section
  has no such line.
\<close>

theorem is_accept_ranges_counterexample:
  "is_accept_ranges
       \<lparr>data = ''HTTP/1.0 200 OK'' @ [CR, LF, CR, LF] @ ''Accept-Ranges: bytes'', length_buf = 39\<rparr>
     = Some 19
   \<and> \<not> acceptsRanges
       \<lparr>data = ''HTTP/1.0 200 OK'' @ [CR, LF, CR, LF] @ ''Accept-Ranges: bytes'', length_buf = 39\<rparr>
   \<and> is_accept_ranges
       \<lparr>data = ''HTTP/1.0 200 OK'' @ [CR, LF] @ ''Via: Accept-Ranges: bytes'' @ [CR, LF, CR, LF],
        length_buf = 46\<rparr>
     = Some 22
   \<and> \<not> acceptsRanges
       \<lparr>data = ''HTTP/1.0 200 OK'' @ [CR, LF] @ ''Via: Accept-Ranges: bytes'' @ [CR, LF, CR, LF],
        length_buf = 46\<rparr>"
  by (simp add: is_accept_ranges_def acceptsRanges_def header_section_def strstr_def
      c_str_def NUL_def CR_def LF_def)


lemma split_crlf_sublist:
  "l \<in> set (split_crlf cur s) \<Longrightarrow> sublist l (cur @ s)"
proof (induction cur s rule: split_crlf.induct)
  case (1 cur)
  then show ?case by simp
next
  case (2 cur c)
  then show ?case by simp
next
  case (3 cur c d cs)
  show ?case
  proof (cases "c = CR \<and> d = LF")
    case True
    with "3.prems" consider "l = cur" | "l \<in> set (split_crlf [] cs)" by auto
    then show ?thesis
    proof cases
      case 1
      then show ?thesis by simp
    next
      case 2
      with True "3.IH"(1) have "sublist l cs" by simp
      then obtain ps ss where "cs = ps @ l @ ss" by (auto simp: sublist_def)
      then have "cur @ c # d # cs = (cur @ c # d # ps) @ l @ ss" by simp
      then show ?thesis unfolding sublist_def by blast
    qed
  next
    case False
    with "3.prems" "3.IH"(2) have "sublist l ((cur @ [c]) @ d # cs)" by auto
    then show ?thesis by simp
  qed
qed

lemma sublist_header_section:
  assumes "sublist l (header_section text)"
  shows "sublist l text"
proof (cases "find_sub [CR, LF, CR, LF] text")
  case None
  with assms show ?thesis by (simp add: header_section_def)
next
  case (Some i)
  with assms obtain ps ss where "take i text = ps @ l @ ss"
    by (auto simp: header_section_def sublist_def)
  then have "text = ps @ l @ (ss @ drop i text)"
    by (metis append_take_drop_id append.assoc)
  then show ?thesis unfolding sublist_def by blast
qed


text \<open>
  C5, amended. Range support is detected exactly when the text \<^verbatim>\<open>Accept-Ranges: bytes\<close>
  occurs somewhere in the text of the response; so it is detected whenever the header
  section has this line, and a response that has the text nowhere is taken not to
  support ranges.
\<close>

theorem is_accept_ranges_substring:
  "(is_accept_ranges r \<noteq> None \<longleftrightarrow> sublist ''Accept-Ranges: bytes'' (c_str (data r)))
   \<and> (acceptsRanges r \<longrightarrow> is_accept_ranges r \<noteq> None)"
proof
  show iff: "is_accept_ranges r \<noteq> None \<longleftrightarrow> sublist ''Accept-Ranges: bytes'' (c_str (data r))"
    by (simp add: is_accept_ranges_def strstr_def find_sub_None_iff)
  show "acceptsRanges r \<longrightarrow> is_accept_ranges r \<noteq> None"
  proof
    assume "acceptsRanges r"
    then have "sublist ''Accept-Ranges: bytes'' ([] @ header_section (c_str (data r)))"
      unfolding acceptsRanges_def by (rule split_crlf_sublist)
    then have "sublist ''Accept-Ranges: bytes'' (c_str (data r))"
      by (simp add: sublist_header_section)
    with iff show "is_accept_ranges r \<noteq> None" by simp
  qed
qed

theorem is_accept_ranges_substring_witness:
  "acceptsRanges \<lparr>data = ''HTTP/1.0 200 OK'' @ [CR, LF] @ ''Accept-Ranges: bytes'' @ [CR, LF, CR, LF],
                  length_buf = 41\<rparr>
   \<and> is_accept_ranges
       \<lparr>data = ''HTTP/1.0 200 OK'' @ [CR, LF] @ ''Accept-Ranges: bytes'' @ [CR, LF, CR, LF],
        length_buf = 41\<rparr> \<noteq> None
   \<and> sublist ''Accept-Ranges: bytes''
       (c_str (data \<lparr>data = ''HTTP/1.0 200 OK'' @ [CR, LF] @ ''Accept-Ranges: bytes''
                            @ [CR, LF, CR, LF], length_buf = 41\<rparr>))"
proof -
  let ?r = "\<lparr>data = ''HTTP/1.0 200 OK'' @ [CR, LF] @ ''Accept-Ranges: bytes'' @ [CR, LF, CR, LF],
             length_buf = 41\<rparr>"
  have h: "acceptsRanges ?r"
    by (simp add: acceptsRanges_def header_section_def c_str_def NUL_def CR_def LF_def)
  from is_accept_ranges_substring [of ?r] h show ?thesis by blast
qed

subsection \<open>The content length\<close>

lemma get_content_size_by_head_absent:
  assumes "\<not> sublist ''Content-Length:'' (c_str (data response))"
  shows "get_content_size_by_head response = Inl NullDereference"
proof -
  have "c_str ''Content-Length:'' = ''Content-Length:''"
    by (simp add: c_str_def NUL_def)
  with assms have "strstr (data response) ''Content-Length:'' = None"
    by (simp add: strstr_def find_sub_None_iff)
  then show ?thesis by (simp add: get_content_size_by_head_def)
qed

lemmas parse_eval = get_content_size_by_head_def strstr_def c_str_def and_then_def atoi_def
  is_digit_def is_space_def digit_val_def BUF_SIZE_def INT_MAX_def INT_MIN_def NUL_def CR_def LF_def


text \<open>
  C4. A response without \<^verbatim>\<open>Content-Length:\<close> is to make the extraction fail with an
  error. \<^verbatim>\<open>get_content_size_by_head\<close> has no such failure: the NULL that \<^verbatim>\<open>strstr\<close>
  returns is dereferenced, also when the header is there and no line feed follows
  it. With the line feed the digits of the line give the result.
\<close>

theorem get_content_size_by_head_null_dereference:
  "get_content_size_by_head
       \<lparr>data = ''HTTP/1.0 200 OK'' @ [CR, LF] @ ''Accept-Ranges: bytes'' @ [CR, LF, CR, LF],
        length_buf = 41\<rparr>
     = Inl NullDereference
   \<and> get_content_size_by_head \<lparr>data = ''Content-Length: 54321'', length_buf = 21\<rparr>
     = Inl NullDereference
   \<and> get_content_size_by_head \<lparr>data = ''Content-Length: 54321'' @ [CR, LF], length_buf = 23\<rparr>
     = Inr (54321, \<lparr>data = ''Content-Length: 54321'' @ [CR, NUL], length_buf = 23\<rparr>)"
  by (simp add: parse_eval)


section \<open>Properties of the transport\<close>

lemma receive_loop_returns:
  assumes "rd (i + n) = []"
  shows "\<exists>b. receive_loop rd i response = Some b"
  using assms
proof (induction n arbitrary: i response)
  case 0
  then show ?case by (subst receive_loop.simps) simp
next
  case (Suc n)
  show ?case
  proof (cases "rd i = []")
    case True
    then show ?thesis by (subst receive_loop.simps) simp
  next
    case False
    from Suc.prems have "rd (Suc i + n) = []" by simp
    from Suc.IH [OF this] False show ?thesis
      by (subst receive_loop.simps) simp
  qed
qed

lemma receive_loop_nothing:
  assumes "rd i = []"
  shows "receive_loop rd i response = Some response"
  using assms by (subst receive_loop.simps) simp


text \<open>
  C10. When \<^verbatim>\<open>http_query\<close> returns, the pointer it returns is not NULL. A refused
  connection and a failed write end the process with \<^verbatim>\<open>exit(1)\<close> inside
  \<^verbatim>\<open>client_socket\<close> and \<^verbatim>\<open>send_http_request\<close>. When the connection and the write
  succeed and the peer closes the connection at some time, the call returns a buffer;
  when the peer sends nothing, that buffer has length 0.
\<close>

theorem http_query_never_null:
  "(\<forall>es r. http_query w host page range_arg port = Some (es, Inr r) \<longrightarrow> r \<noteq> None)
   \<and> (getaddrinfo_rc w = 0 \<and> connect_rc w = - 1
        \<longrightarrow> (\<exists>es. http_query w host page range_arg port = Some (es, Inl (Exit 1))))
   \<and> (getaddrinfo_rc w = 0 \<and> connect_rc w \<noteq> - 1
        \<and> (\<exists>req. pack_http_request host page range_arg GET = Inr req) \<and> sint (write_rc w) < 0
        \<longrightarrow> (\<exists>es. http_query w host page range_arg port = Some (es, Inl (Exit 1))))
   \<and> (getaddrinfo_rc w = 0 \<and> connect_rc w \<noteq> - 1
        \<and> (\<exists>req. pack_http_request host page range_arg GET = Inr req) \<and> 0 \<le> sint (write_rc w)
        \<and> (\<exists>n. read_data w n = [])
        \<longrightarrow> (\<exists>es b. http_query w host page range_arg port = Some (es, Inr (Some b))))
   \<and> (getaddrinfo_rc w = 0 \<and> connect_rc w \<noteq> - 1
        \<and> (\<exists>req. pack_http_request host page range_arg GET = Inr req) \<and> 0 \<le> sint (write_rc w)
        \<and> read_data w 0 = []
        \<longrightarrow> (\<exists>es b. http_query w host page range_arg port = Some (es, Inr (Some b))
               \<and> length_buf b = 0))"
proof (intro conjI allI impI)
  fix es r
  assume "http_query w host page range_arg port = Some (es, Inr r)"
  then show "r \<noteq> None"
    by (auto simp: http_query_def split: prod.splits sum.splits option.splits) metis
next
  assume "getaddrinfo_rc w = 0 \<and> connect_rc w = - 1"
  then show "\<exists>es. http_query w host page range_arg port = Some (es, Inl (Exit 1))"
    by (simp add: http_query_def client_socket_def)
next
  assume a: "getaddrinfo_rc w = 0 \<and> connect_rc w \<noteq> - 1
        \<and> (\<exists>req. pack_http_request host page range_arg GET = Inr req) \<and> sint (write_rc w) < 0"
  then obtain req where "pack_http_request host page range_arg GET = Inr req" by blast
  with a show "\<exists>es. http_query w host page range_arg port = Some (es, Inl (Exit 1))"
    by (simp add: http_query_def client_socket_def send_http_request_def)
next
  assume a: "getaddrinfo_rc w = 0 \<and> connect_rc w \<noteq> - 1
        \<and> (\<exists>req. pack_http_request host page range_arg GET = Inr req) \<and> 0 \<le> sint (write_rc w)
        \<and> (\<exists>n. read_data w n = [])"
  then obtain req n where req: "pack_http_request host page range_arg GET = Inr req"
    and n: "read_data w (0 + n) = []" by auto
  from receive_loop_returns [of "read_data w" 0 n fresh_response] n obtain b
    where "receive_loop (read_data w) 0 fresh_response = Some b" by blast
  with a req show "\<exists>es b. http_query w host page range_arg port = Some (es, Inr (Some b))"
    by (simp add: http_query_def client_socket_def send_http_request_def)
next
  assume a: "getaddrinfo_rc w = 0 \<and> connect_rc w \<noteq> - 1
        \<and> (\<exists>req. pack_http_request host page range_arg GET = Inr req) \<and> 0 \<le> sint (write_rc w)
        \<and> read_data w 0 = []"
  then obtain req where req: "pack_http_request host page range_arg GET = Inr req" by blast
  from a have "receive_loop (read_data w) 0 fresh_response = Some fresh_response"
    by (simp add: receive_loop_nothing)
  with a req show "\<exists>es b. http_query w host page range_arg port = Some (es, Inr (Some b))
               \<and> length_buf b = 0"
    by (simp add: http_query_def client_socket_def send_http_request_def fresh_response_def)
qed

lemmas pack_eval = pack_http_request_def strcat_def and_then_def c_str_def NUL_def CR_def LF_def
  GET_def HEAD_def


theorem http_query_never_null_witness:
  "(\<exists>es. http_query \<lparr>getaddrinfo_rc = 0, socket_fd = 3, connect_rc = - 1, write_rc = 0,
                       read_data = silent_peer\<rparr>
            ''example.com'' (Some ''index.html'') (Some ''0-99'') 80 = Some (es, Inl (Exit 1)))
   \<and> pack_http_request ''example.com'' (Some ''index.html'') (Some ''0-99'') GET
       = Inr (''GET /index.html HTTP/1.0'' @ [CR, LF] @ ''Host: example.com'' @ [CR, LF]
              @ ''Range: bytes=0-99'' @ [CR, LF] @ ''User-Agent: getter'' @ [CR, LF, CR, LF])
   \<and> sint (- 1 :: c_int) < 0
   \<and> (\<exists>es. http_query \<lparr>getaddrinfo_rc = 0, socket_fd = 3, connect_rc = 0, write_rc = - 1,
                       read_data = silent_peer\<rparr>
            ''example.com'' (Some ''index.html'') (Some ''0-99'') 80 = Some (es, Inl (Exit 1)))
   \<and> silent_peer 0 = []
   \<and> (\<exists>es b. http_query \<lparr>getaddrinfo_rc = 0, socket_fd = 3, connect_rc = 0, write_rc = 86,
                       read_data = silent_peer\<rparr>
            ''example.com'' (Some ''index.html'') (Some ''0-99'') 80 = Some (es, Inr (Some b))
          \<and> length_buf b = 0)"
proof -
  let ?refused = "\<lparr>getaddrinfo_rc = 0, socket_fd = 3, connect_rc = - 1, write_rc = 0,
                  read_data = silent_peer\<rparr>"
  let ?unsent = "\<lparr>getaddrinfo_rc = 0, socket_fd = 3, connect_rc = 0, write_rc = - 1,
                  read_data = silent_peer\<rparr>"
  let ?closed = "\<lparr>getaddrinfo_rc = 0, socket_fd = 3, connect_rc = 0, write_rc = 86,
                  read_data = silent_peer\<rparr>"
  have pack: "pack_http_request ''example.com'' (Some ''index.html'') (Some ''0-99'') GET
       = Inr (''GET /index.html HTTP/1.0'' @ [CR, LF] @ ''Host: example.com'' @ [CR, LF]
              @ ''Range: bytes=0-99'' @ [CR, LF] @ ''User-Agent: getter'' @ [CR, LF, CR, LF])"
    by (simp add: pack_eval)
  have neg: "sint (- 1 :: c_int) < 0" by simp
  have quiet: "silent_peer 0 = []" by (simp add: silent_peer_def)
  have a: "getaddrinfo_rc ?refused = 0 \<and> connect_rc ?refused = - 1" by simp
  have b: "getaddrinfo_rc ?unsent = 0 \<and> connect_rc ?unsent \<noteq> - 1
        \<and> (\<exists>req. pack_http_request ''example.com'' (Some ''index.html'') (Some ''0-99'') GET = Inr req)
        \<and> sint (write_rc ?unsent) < 0"
    using pack by simp
  have c: "getaddrinfo_rc ?closed = 0 \<and> connect_rc ?closed \<noteq> - 1
        \<and> (\<exists>req. pack_http_request ''example.com'' (Some ''index.html'') (Some ''0-99'') GET = Inr req)
        \<and> 0 \<le> sint (write_rc ?closed) \<and> read_data ?closed 0 = []"
    using pack quiet by simp
  note t1 = http_query_never_null [of ?refused "''example.com''" "Some ''index.html''" "Some ''0-99''" 80]
  note t2 = http_query_never_null [of ?unsent "''example.com''" "Some ''index.html''" "Some ''0-99''" 80]
  note t3 = http_query_never_null [of ?closed "''example.com''" "Some ''index.html''" "Some ''0-99''" 80]
  from t1 a have r1: "\<exists>es. http_query ?refused ''example.com'' (Some ''index.html'') (Some ''0-99'') 80
         = Some (es, Inl (Exit 1))" by blast
  from t2 b have r2: "\<exists>es. http_query ?unsent ''example.com'' (Some ''index.html'') (Some ''0-99'') 80
         = Some (es, Inl (Exit 1))" by blast
  from t3 c have r3: "\<exists>es b. http_query ?closed ''example.com'' (Some ''index.html'') (Some ''0-99'') 80
         = Some (es, Inr (Some b)) \<and> length_buf b = 0" by blast
  from r1 pack neg r2 quiet r3 show ?thesis by blast
qed

lemma strncpy_short:
  assumes "length (c_str url) < n"
  shows "NUL \<in> set (strncpy url n)" and "c_str (strncpy url n) = c_str url"
proof -
  let ?u = "c_str url"
  have s: "strncpy url n = ?u @ replicate (n - length ?u) NUL"
    using assms by (simp add: strncpy_def)
  have pos: "0 < n - length ?u" using assms by simp
  then show "NUL \<in> set (strncpy url n)" using s by simp
  have clean: "\<forall>c\<in>set ?u. c \<noteq> NUL"
    by (auto simp: c_str_def dest: set_takeWhileD)
  obtain m where m: "n - length ?u = Suc m" using pos by (cases "n - length ?u") auto
  have "takeWhile (\<lambda>c. c \<noteq> NUL) (?u @ NUL # replicate m NUL) = ?u"
    using clean by (simp add: takeWhile_tail)
  then show "c_str (strncpy url n) = c_str url"
    using s m by (simp add: c_str_def)
qed

lemma no_slash:
  assumes "CHR ''/'' \<notin> set s"
  shows "find_sub ''/'' s = None"
proof -
  have "\<not> sublist ''/'' s"
  proof
    assume "sublist ''/'' s"
    then obtain ps ss where "s = ps @ ''/'' @ ss" by (auto simp: sublist_def)
    with assms show False by simp
  qed
  then show ?thesis by (simp add: find_sub_None_iff)
qed

lemma pack_http_request_null_page:
  "pack_http_request host None range_arg method = Inl NullDereference"
  by (simp add: pack_http_request_def strcat_def and_then_def c_str_def NUL_def)

lemma strstr_no_slash:
  assumes "CHR ''/'' \<notin> set (c_str url)" and "length (c_str url) < BUF_SIZE"
  shows "strstr (strncpy url BUF_SIZE) ''/'' = None"
proof -
  have "c_str ''/'' = ''/''" by (simp add: c_str_def NUL_def)
  then show ?thesis
    using assms by (simp add: strstr_def strncpy_short(2) no_slash)
qed

lemma http_url_no_slash:
  assumes "CHR ''/'' \<notin> set (c_str url)" and "length (c_str url) < BUF_SIZE"
  shows "http_url w url range_arg = Some ([Stderr (split_message url)], Inr None)"
proof -
  have "strstr (strncpy url BUF_SIZE) ''/'' = None"
    using assms by (rule strstr_no_slash)
  then show ?thesis
    using strncpy_short(1) [OF assms(2)] by (simp add: http_url_def)
qed

lemma get_num_tasks_no_slash:
  assumes "CHR ''/'' \<notin> set (c_str url)" and "length (c_str url) < BUF_SIZE"
    and "getaddrinfo_rc w = 0" and "connect_rc w \<noteq> - 1"
  shows "get_num_tasks w url threads g
       = Some ([Stderr (split_message url), Connect (c_str url) 80], Inl NullDereference)"
proof -
  have "strstr (strncpy url BUF_SIZE) ''/'' = None"
    using assms(1,2) by (rule strstr_no_slash)
  then show ?thesis
    using strncpy_short [OF assms(2)] assms(3,4)
    by (simp add: get_num_tasks_def client_socket_def pack_http_request_null_page)
qed


text \<open>
  C9. A url without \<^verbatim>\<open>/\<close> is to make both entry points fail before any request.
  \<^verbatim>\<open>http_url\<close> does so and returns NULL. \<^verbatim>\<open>get_num_tasks\<close> prints the same message and
  goes on: it connects to the host and dereferences the NULL \<^verbatim>\<open>page\<close> while it builds
  the request.
\<close>

theorem get_num_tasks_null_page:
  "http_url \<lparr>getaddrinfo_rc = 0, socket_fd = 3, connect_rc = 0, write_rc = 0,
             read_data = silent_peer\<rparr> ''example.com'' (Some ''0-99'')
     = Some ([Stderr (''could not split url into host/page example.com'' @ [LF])], Inr None)
   \<and> get_num_tasks \<lparr>getaddrinfo_rc = 0, socket_fd = 3, connect_rc = 0, write_rc = 0,
             read_data = silent_peer\<rparr> ''example.com'' 4 \<lparr>max_chunk_size = 0\<rparr>
     = Some ([Stderr (''could not split url into host/page example.com'' @ [LF]),
              Connect ''example.com'' 80], Inl NullDereference)"
proof -
  have c: "c_str ''example.com'' = ''example.com''"
    by (simp add: c_str_def NUL_def)
  have a: "CHR ''/'' \<notin> set (c_str ''example.com'')" by (simp add: c)
  have b: "length (c_str ''example.com'') < BUF_SIZE" by (simp add: c BUF_SIZE_def)
  show ?thesis
    using http_url_no_slash [OF a b] get_num_tasks_no_slash [OF a b]
    by (simp add: split_message_def c)
qed

section \<open>Properties of the bounded queue\<close>

subsection \<open>One call\<close>

lemma shift_loop_result:
  assumes "1 \<le> i" and "n \<le> length t" and "Indeterminate \<notin> set (drop i (take n t))"
  shows "\<exists>t'. shift_loop i n t = Inr t' \<and> length t' = length t
           \<and> (\<forall>j<length t. t' ! j = (if i - 1 \<le> j \<and> j + 1 < n then t ! (j + 1) else t ! j))"
  using assms
proof (induction i n t rule: shift_loop.induct)
  case (1 i n t)
  show ?case
  proof (cases "i < n")
    case False
    then show ?thesis
      by (subst shift_loop.simps) auto
  next
    case True
    with "1.prems" have il: "i < length t" by simp
    have mem: "t ! i \<in> set (drop i (take n t))"
      using True il by (auto simp: in_set_conv_nth intro!: exI [of _ 0])
    with "1.prems"(3) obtain p where p: "t ! i = Stored p"
      by (cases "t ! i") auto
    let ?u = "t[i - 1 := Stored p]"
    have d: "drop (Suc i) (take n ?u) = drop (Suc i) (take n t)"
      by (simp add: drop_take)
    have "set (drop (Suc i) (take n t)) \<subseteq> set (drop i (take n t))"
      by (rule set_drop_subset_set_drop) simp
    with "1.prems"(3) d have ind: "Indeterminate \<notin> set (drop (Suc i) (take n ?u))"
      by auto
    have "\<exists>t'. shift_loop (Suc i) n ?u = Inr t' \<and> length t' = length ?u
           \<and> (\<forall>j<length ?u. t' ! j = (if Suc i - 1 \<le> j \<and> j + 1 < n then ?u ! (j + 1) else ?u ! j))"
      using True il p "1.prems" ind
      by (intro "1.IH") auto
    then obtain t' where t': "shift_loop (Suc i) n ?u = Inr t'" "length t' = length t"
      and nth: "\<forall>j<length t. t' ! j = (if i \<le> j \<and> j + 1 < n then ?u ! (j + 1) else ?u ! j)"
      by auto
    have eq: "shift_loop i n t = Inr t'"
      using True il p t' by (subst shift_loop.simps) simp
    have "\<forall>j<length t. t' ! j = (if i - 1 \<le> j \<and> j + 1 < n then t ! (j + 1) else t ! j)"
    proof (intro allI impI)
      fix j assume j: "j < length t"
      show "t' ! j = (if i - 1 \<le> j \<and> j + 1 < n then t ! (j + 1) else t ! j)"
        using nth j "1.prems"(1) True p
        by (auto simp: nth_list_update)
    qed
    with eq t' show ?thesis by simp
  qed
qed

lemma size_t_inc_small: "n < 2 ^ 31 \<Longrightarrow> size_t_inc n = n + 1"
  by (simp add: size_t_inc_def)

lemma size_t_dec_pos: "0 < n \<Longrightarrow> n < 2 ^ 31 \<Longrightarrow> size_t_dec n = n - 1"
proof -
  assume a: "0 < n" "n < 2 ^ 31"
  have "n + (2 ^ 64 - 1) = (n - 1) + 2 ^ 64" using a by simp
  then have "(n + (2 ^ 64 - 1)) mod 2 ^ 64 = (n - 1) mod 2 ^ 64" by (metis mod_add_self2)
  also have "\<dots> = n - 1" using a by simp
  finally show ?thesis by (simp add: size_t_dec_def)
qed

lemma queue_invD:
  assumes "queue_inv k q"
  obtains t where "task q = Some t" "length t = k" "Indeterminate \<notin> set (take (size_q q) t)"
    "k \<le> SEM_VALUE_MAX" "size_q q \<le> k" "\<not> mutex q" "full q = Some (size_q q)"
    "empty q = Some (k - size_q q)"
  using assms by (auto simp: queue_inv_def split: option.splits)

lemma queue_put_full:
  assumes "queue_inv k q" and "size_q q = k"
  shows "queue_put q item = Inl Blocks"
  using assms by (auto simp: queue_inv_def queue_put_def sem_wait_def and_then_def split: option.splits)

lemma queue_put_free:
  assumes inv: "queue_inv k q" and free: "size_q q < k"
  shows "\<exists>q'. queue_put q item = Inr q' \<and> queue_inv k q' \<and> size_q q' = size_q q + 1
           \<and> items_of q' = items_of q @ [item]"
proof -
  from inv obtain t where t: "task q = Some t" "length t = k"
    "Indeterminate \<notin> set (take (size_q q) t)"
    and k: "k \<le> SEM_VALUE_MAX" and m: "\<not> mutex q"
    and f: "full q = Some (size_q q)" and e: "empty q = Some (k - size_q q)"
    by (rule queue_invD)
  let ?n = "size_q q"
  let ?q' = "q\<lparr>full := Some (?n + 1), empty := Some (k - ?n - 1),
               task := Some (t[?n := Stored item]), size_q := ?n + 1\<rparr>"
  have small: "?n < 2 ^ 31" using free k by (simp add: SEM_VALUE_MAX_def)
  have nmax: "?n \<noteq> SEM_VALUE_MAX" using free k by simp
  have put: "queue_put q item = Inr ?q'"
    using t m f e free nmax small
    by (simp add: queue_put_def sem_wait_def sem_post_def and_then_def size_t_inc_small)
  have tk: "take (?n + 1) (t[?n := Stored item]) = take ?n t @ [Stored item]"
    using free t(2) by (simp add: take_Suc_conv_app_nth)
  have "queue_inv k ?q'"
    using t k m free tk by (auto simp: queue_inv_def)
  moreover have "items_of ?q' = items_of q @ [item]"
    using t tk by (simp add: items_of_def stored_def)
  ultimately show ?thesis using put by simp
qed

lemma queue_get_empty:
  assumes "queue_inv k q" and "size_q q = 0"
  shows "queue_get q = Inl Blocks"
  using assms by (auto simp: queue_inv_def queue_get_def sem_wait_def and_then_def split: option.splits)

lemma queue_get_nonempty:
  assumes inv: "queue_inv k q" and ne: "0 < size_q q"
  shows "\<exists>q'. queue_get q = Inr (hd (items_of q), q') \<and> queue_inv k q'
           \<and> size_q q' + 1 = size_q q \<and> items_of q' = tl (items_of q)"
proof -
  from inv obtain t where t: "task q = Some t" "length t = k"
    "Indeterminate \<notin> set (take (size_q q) t)"
    and k: "k \<le> SEM_VALUE_MAX" and le: "size_q q \<le> k" and m: "\<not> mutex q"
    and f: "full q = Some (size_q q)" and e: "empty q = Some (k - size_q q)"
    by (rule queue_invD)
  let ?n = "size_q q"
  have small: "?n < 2 ^ 31" using le k by (simp add: SEM_VALUE_MAX_def)
  have dec: "size_t_dec ?n = ?n - 1" using ne small by (rule size_t_dec_pos)
  have kpos: "0 < length t" using ne le t(2) by simp
  have "t ! 0 \<in> set (take ?n t)"
    using ne kpos by (auto simp: in_set_conv_nth intro!: exI [of _ 0])
  with t(3) obtain item where item: "t ! 0 = Stored item"
    by (cases "t ! 0") auto
  have "set (drop 1 (take ?n t)) \<subseteq> set (take ?n t)" by (rule set_drop_subset)
  with t(3) have "Indeterminate \<notin> set (drop 1 (take ?n t))" by auto
  with le t(2) obtain t' where t': "shift_loop 1 ?n t = Inr t'" "length t' = length t"
    and nth: "\<forall>j<length t. t' ! j = (if 1 - 1 \<le> j \<and> j + 1 < ?n then t ! (j + 1) else t ! j)"
    using shift_loop_result [of 1 ?n t] by auto
  let ?q' = "q\<lparr>full := Some (?n - 1), empty := Some (k - ?n + 1),
               task := Some (t'[?n - 1 := Stored None]), size_q := ?n - 1\<rparr>"
  have emax: "k - ?n \<noteq> SEM_VALUE_MAX" using ne le k by simp
  have get: "queue_get q = Inr (item, ?q')"
    using t m f e ne item t' dec kpos le emax
    by (simp add: queue_get_def sem_wait_def sem_post_def and_then_def)
  have tk: "take (?n - 1) (t'[?n - 1 := Stored None]) = tl (take ?n t)"
  proof (rule nth_equalityI)
    show "length (take (?n - 1) (t'[?n - 1 := Stored None])) = length (tl (take ?n t))"
      using t' le t(2) by simp
  next
    fix j assume "j < length (take (?n - 1) (t'[?n - 1 := Stored None]))"
    then have j: "j < ?n - 1" by simp
    then have "j < length t" using le t(2) by simp
    moreover have "j + 1 < ?n" using j by simp
    ultimately have "t' ! j = t ! (j + 1)" using nth by simp
    moreover have "tl (take ?n t) ! j = t ! (j + 1)"
      using j le t(2) by (simp add: nth_tl)
    ultimately show "take (?n - 1) (t'[?n - 1 := Stored None]) ! j = tl (take ?n t) ! j"
      using j by simp
  qed
  have "set (tl (take ?n t)) \<subseteq> set (take ?n t)"
    by (cases "take ?n t") auto
  with t(3) have clean: "Indeterminate \<notin> set (tl (take ?n t))" by auto
  have "queue_inv k ?q'"
    using t t' k m le ne tk clean by (auto simp: queue_inv_def)
  moreover have "items_of ?q' = tl (items_of q)"
    using t tk by (simp add: items_of_def map_tl)
  moreover have "hd (items_of q) = item"
  proof -
    have "take ?n t \<noteq> []" using ne kpos by auto
    then have "hd (map stored (take ?n t)) = stored (take ?n t ! 0)"
      by (simp add: hd_map hd_conv_nth)
    also have "\<dots> = item" using ne item by (simp add: stored_def)
    finally show ?thesis using t by (simp add: items_of_def)
  qed
  ultimately show ?thesis using get ne by simp
qed

subsection \<open>Sequences of calls\<close>

lemma uint_eq_sint:
  fixes k :: c_int
  assumes "0 \<le> sint k"
  shows "uint k = sint k"
proof -
  have s: "sint k = (uint k + 2 ^ 31) mod 2 ^ 32 - 2 ^ 31"
    using int_word_sint [of "uint k", where 'a = 32] by simp
  have lo: "0 \<le> uint k" by simp
  have hi: "uint k < 2 ^ 32" using uint_lt2p [of k] by simp
  show ?thesis
  proof (cases "uint k < 2 ^ 31")
    case True
    with lo have "(uint k + 2 ^ 31) mod 2 ^ 32 = uint k + 2 ^ 31"
      by simp
    with s show ?thesis by simp
  next
    case False
    then have a: "0 \<le> uint k + 2 ^ 31 - 2 ^ 32" by simp
    have b: "uint k + 2 ^ 31 - 2 ^ 32 < 2 ^ 32" using hi by simp
    have "(uint k + 2 ^ 31) mod 2 ^ 32 = (uint k + 2 ^ 31 - 2 ^ 32) mod 2 ^ 32"
      by (metis mod_diff_right_eq mod_self diff_zero)
    also have "\<dots> = uint k + 2 ^ 31 - 2 ^ 32"
      using a b by simp
    finally have "sint k = uint k - 2 ^ 32" using s by simp
    with hi assms show ?thesis by simp
  qed
qed

lemma unat_eq_nat_sint:
  fixes k :: c_int
  assumes "0 \<le> sint k"
  shows "unat k = nat (sint k)"
  using uint_eq_sint [OF assms] by (simp add: unat_eq_nat_uint)

lemma sint_le_SEM_VALUE_MAX:
  fixes k :: c_int
  shows "nat (sint k) \<le> SEM_VALUE_MAX"
  using sint_lt [of k] by (simp add: SEM_VALUE_MAX_def)

lemma queue_alloc_inv:
  fixes k :: c_int
  assumes "0 \<le> sint k" and "queue_alloc k = Some q"
  shows "queue_inv (nat (sint k)) q \<and> size_q q = 0 \<and> items_of q = []"
  using assms sint_le_SEM_VALUE_MAX [of k]
  by (auto simp: queue_alloc_def queue_inv_def sem_init_def unat_eq_nat_sint items_of_def)

lemma put_all_inv:
  assumes "queue_inv k q" and "size_q q + length items \<le> k"
  shows "\<exists>q'. put_all q items = Inr q' \<and> queue_inv k q' \<and> size_q q' = size_q q + length items
           \<and> items_of q' = items_of q @ items"
  using assms
proof (induction items arbitrary: q)
  case Nil
  then show ?case by simp
next
  case (Cons item items)
  then have "size_q q < k" by simp
  with Cons.prems(1) obtain q1 where q1: "queue_put q item = Inr q1" "queue_inv k q1"
    "size_q q1 = size_q q + 1" "items_of q1 = items_of q @ [item]"
    using queue_put_free by blast
  with Cons.prems(2) have "size_q q1 + length items \<le> k" by simp
  with q1(2) obtain q' where "put_all q1 items = Inr q'" "queue_inv k q'"
    "size_q q' = size_q q1 + length items" "items_of q' = items_of q1 @ items"
    using Cons.IH by blast
  with q1 show ?case by (simp add: and_then_def)
qed

lemma length_items_of:
  assumes "queue_inv k q"
  shows "length (items_of q) = size_q q"
  using assms by (auto simp: queue_inv_def items_of_def split: option.splits)

lemma get_n_inv:
  assumes "queue_inv k q" and "n \<le> size_q q"
  shows "\<exists>q'. get_n q n = Inr (take n (items_of q), q') \<and> queue_inv k q'
           \<and> size_q q' + n = size_q q \<and> items_of q' = drop n (items_of q)"
  using assms
proof (induction n arbitrary: q)
  case 0
  then show ?case by simp
next
  case (Suc n)
  then have pos: "0 < size_q q" by simp
  with Suc.prems(1) obtain q1 where q1: "queue_get q = Inr (hd (items_of q), q1)" "queue_inv k q1"
    "size_q q1 + 1 = size_q q" "items_of q1 = tl (items_of q)"
    using queue_get_nonempty by blast
  with Suc.prems(2) have "n \<le> size_q q1" by simp
  with q1(2) obtain q' where q': "get_n q1 n = Inr (take n (items_of q1), q')" "queue_inv k q'"
    "size_q q' + n = size_q q1" "items_of q' = drop n (items_of q1)"
    using Suc.IH by blast
  have ne: "items_of q \<noteq> []"
    using pos length_items_of [OF Suc.prems(1)] by auto
  then have "hd (items_of q) # take n (tl (items_of q)) = take (Suc n) (items_of q)"
    by (cases "items_of q") simp_all
  moreover have "drop n (tl (items_of q)) = drop (Suc n) (items_of q)"
    by (simp add: drop_Suc)
  ultimately show ?case
    using q1 q' by (simp add: and_then_def)
qed

lemma run_calls_inv:
  assumes "queue_inv k q" and "run_calls q cs = Inr q'"
  shows "queue_inv k q'"
  using assms
proof (induction q cs rule: run_calls.induct)
  case (1 queue)
  then show ?case by simp
next
  case (2 queue item cs)
  show ?case
  proof (cases "size_q queue < k")
    case True
    with "2.prems"(1) obtain q1 where "queue_put queue item = Inr q1" "queue_inv k q1"
      using queue_put_free by blast
    with "2.prems"(2) "2.IH" show ?thesis by (simp add: and_then_def)
  next
    case False
    with "2.prems"(1) have "size_q queue = k" by (auto simp: queue_inv_def)
    with "2.prems"(1) have "queue_put queue item = Inl Blocks" by (rule queue_put_full)
    with "2.prems"(2) show ?thesis by (simp add: and_then_def)
  qed
next
  case (3 queue cs)
  show ?case
  proof (cases "0 < size_q queue")
    case True
    with "3.prems"(1) obtain q1 where "queue_get queue = Inr (hd (items_of queue), q1)" "queue_inv k q1"
      using queue_get_nonempty by blast
    with "3.prems"(2) "3.IH" show ?thesis by (simp add: and_then_def)
  next
    case False
    with "3.prems"(1) have "queue_get queue = Inl Blocks" by (simp add: queue_get_empty)
    with "3.prems"(2) show ?thesis by (simp add: and_then_def)
  qed
qed

lemma reachable_inv:
  fixes k :: c_int
  assumes "0 < sint k" and "queue_alloc k = Some q0" and "run_calls q0 cs = Inr q"
  shows "queue_inv (nat (sint k)) q"
proof -
  from assms(1) have "0 \<le> sint k" by simp
  with assms(2) have "queue_inv (nat (sint k)) q0"
    using queue_alloc_inv [of k q0] by simp
  then show ?thesis using assms(3) by (rule run_calls_inv)
qed

lemmas queue_eval = queue_put_def queue_get_def and_then_def sem_wait_def sem_post_def
  size_t_inc_def size_t_dec_def shift_loop.simps SEM_VALUE_MAX_def


lemma put_all_blocks:
  assumes "queue_inv k q" and "k < size_q q + length items"
  shows "put_all q items = Inl Blocks"
  using assms
proof (induction items arbitrary: q)
  case Nil
  then show ?case by (simp add: queue_inv_def)
next
  case (Cons item items)
  show ?case
  proof (cases "size_q q < k")
    case False
    with Cons.prems(1) have "size_q q = k" by (simp add: queue_inv_def)
    with Cons.prems(1) have "queue_put q item = Inl Blocks" by (rule queue_put_full)
    then show ?thesis by (simp add: and_then_def)
  next
    case True
    with Cons.prems(1) obtain q1 where q1: "queue_put q item = Inr q1" "queue_inv k q1"
      "size_q q1 = size_q q + 1"
      using queue_put_free by blast
    with Cons.prems(2) have "k < size_q q1 + length items" by simp
    with q1(2) have "put_all q1 items = Inl Blocks" by (rule Cons.IH)
    with q1(1) show ?thesis by (simp add: and_then_def)
  qed
qed


text \<open>
  C2. The queue is first in, first out. Take a queue that holds nothing and the items
  \<open>a\<^sub>1, \<dots>, a\<^sub>n\<close>. The \<open>n\<close> calls of \<^verbatim>\<open>queue_put\<close> all complete exactly when \<open>n\<close> is at
  most the capacity (otherwise one of them blocks). Once they have completed, \<open>n\<close>
  calls of \<^verbatim>\<open>queue_get\<close> return exactly \<open>a\<^sub>1, \<dots>, a\<^sub>n\<close> in this order and leave the queue
  empty: the call after \<open>i\<close> earlier ones finds \<open>a\<^sub>i\<^sub>+\<^sub>1, \<dots>, a\<^sub>n\<close> in the queue, returns the
  head and leaves the rest.
\<close>

theorem queue_fifo:
  fixes k :: c_int
  assumes "0 < sint k" and "queue_alloc k = Some q0" and "run_calls q0 cs = Inr q"
    and "size_q q = 0"
  shows "((\<exists>q1. put_all q items = Inr q1) \<longleftrightarrow> length items \<le> nat (sint k))
       \<and> (\<forall>q1. put_all q items = Inr q1 \<longrightarrow>
             (\<exists>q2. get_n q1 (length items) = Inr (items, q2) \<and> size_q q2 = 0)
           \<and> (\<forall>i<length items. \<exists>qa qb. get_n q1 i = Inr (take i items, qa)
                  \<and> queue_get qa = Inr (items ! i, qb) \<and> items_of qa = drop i items
                  \<and> items_of qb = drop (Suc i) items))"
proof -
  let ?k = "nat (sint k)"
  have inv: "queue_inv ?k q" using assms(1-3) by (rule reachable_inv)
  have none: "items_of q = []"
    using length_items_of [OF inv] assms(4) by simp
  have completes: "(\<exists>q1. put_all q items = Inr q1) \<longleftrightarrow> length items \<le> ?k"
  proof (cases "length items \<le> ?k")
    case True
    with inv assms(4) show ?thesis
      using put_all_inv [of ?k q items] by auto
  next
    case False
    with assms(4) have "?k < size_q q + length items" by simp
    with inv have "put_all q items = Inl Blocks" by (rule put_all_blocks)
    with False show ?thesis by simp
  qed
  have after: "(\<exists>q2. get_n q1 (length items) = Inr (items, q2) \<and> size_q q2 = 0)
           \<and> (\<forall>i<length items. \<exists>qa qb. get_n q1 i = Inr (take i items, qa)
                  \<and> queue_get qa = Inr (items ! i, qb) \<and> items_of qa = drop i items
                  \<and> items_of qb = drop (Suc i) items)"
    if put: "put_all q items = Inr q1" for q1
  proof -
    from put completes have fits: "length items \<le> ?k" by blast
    with inv assms(4) put have q1: "queue_inv ?k q1" "size_q q1 = length items"
      "items_of q1 = items"
      using put_all_inv [of ?k q items] none by auto
    from q1(1,2) obtain q2 where q2: "get_n q1 (length items) = Inr (take (length items) (items_of q1), q2)"
      "size_q q2 + length items = size_q q1"
      using get_n_inv [of ?k q1 "length items"] by auto
    have each: "\<forall>i<length items. \<exists>qa qb. get_n q1 i = Inr (take i items, qa)
                  \<and> queue_get qa = Inr (items ! i, qb) \<and> items_of qa = drop i items
                  \<and> items_of qb = drop (Suc i) items"
    proof (intro allI impI)
      fix i assume i: "i < length items"
      with q1(1,2) obtain qa where qa: "get_n q1 i = Inr (take i (items_of q1), qa)"
        "queue_inv ?k qa" "size_q qa + i = size_q q1" "items_of qa = drop i (items_of q1)"
        using get_n_inv [of ?k q1 i] by auto
      with i q1(2) have "0 < size_q qa" by simp
      with qa(2) obtain qb where qb: "queue_get qa = Inr (hd (items_of qa), qb)"
        "items_of qb = tl (items_of qa)"
        using queue_get_nonempty by blast
      have "hd (drop i items) = items ! i" using i by (simp add: hd_drop_conv_nth)
      moreover have "tl (drop i items) = drop (Suc i) items" by (simp add: drop_Suc tl_drop)
      ultimately show "\<exists>qa qb. get_n q1 i = Inr (take i items, qa)
                  \<and> queue_get qa = Inr (items ! i, qb) \<and> items_of qa = drop i items
                  \<and> items_of qb = drop (Suc i) items"
        using qa qb q1(3) by simp
    qed
    from q2 q1 each show ?thesis by simp
  qed
  from completes after show ?thesis by blast
qed

theorem queue_fifo_witness:
  "0 < sint (3 :: c_int)
   \<and> queue_alloc 3 = Some \<lparr>full = Some 0, empty = Some 3,
         task = Some [Indeterminate, Indeterminate, Indeterminate :: nat slot],
         size_q = 0, mutex = False\<rparr>
   \<and> run_calls \<lparr>full = Some 0, empty = Some 3,
         task = Some [Indeterminate, Indeterminate, Indeterminate], size_q = 0, mutex = False\<rparr>
         [Put (Some (7 :: nat)), Get]
       = Inr \<lparr>full = Some 0, empty = Some 3,
         task = Some [Stored None, Indeterminate, Indeterminate], size_q = 0, mutex = False\<rparr>
   \<and> (\<exists>q1 q2. put_all \<lparr>full = Some 0, empty = Some 3,
           task = Some [Stored None, Indeterminate, Indeterminate], size_q = 0, mutex = False\<rparr>
           [Some (10 :: nat), None, Some 30] = Inr q1
         \<and> get_n q1 3 = Inr ([Some 10, None, Some 30], q2) \<and> size_q q2 = 0)"
proof -
  let ?start = "\<lparr>full = Some 0, empty = Some 3,
         task = Some [Indeterminate, Indeterminate, Indeterminate :: nat slot], size_q = 0, mutex = False\<rparr>"
  let ?now = "\<lparr>full = Some 0, empty = Some 3,
         task = Some [Stored None, Indeterminate, Indeterminate :: nat slot], size_q = 0, mutex = False\<rparr>"
  have h1: "0 < sint (3 :: c_int)" by simp
  have "replicate 3 (Indeterminate :: nat slot) = [Indeterminate, Indeterminate, Indeterminate]"
    by (simp add: numeral_3_eq_3)
  then have h2: "queue_alloc 3 = Some ?start"
    by (simp add: queue_alloc_def sem_init_def SEM_VALUE_MAX_def)
  have h3: "run_calls ?start [Put (Some 7), Get] = Inr ?now"
    by (simp add: queue_eval)
  have h4: "size_q ?now = 0" by simp
  have len: "length [Some (10 :: nat), None, Some 30] = 3" by simp
  have h5: "(3 :: nat) \<le> nat (sint (3 :: c_int))" by simp
  note fifo = queue_fifo [OF h1 h2 h3 h4, of "[Some 10, None, Some 30]", unfolded len]
  from fifo h5 obtain q1 where q1: "put_all ?now [Some 10, None, Some 30] = Inr q1"
    by blast
  with fifo obtain q2 where "get_n q1 3 = Inr ([Some 10, None, Some 30], q2)" "size_q q2 = 0"
    by blast
  with q1 have "\<exists>q1 q2. put_all ?now [Some 10, None, Some 30] = Inr q1
         \<and> get_n q1 3 = Inr ([Some 10, None, Some 30], q2) \<and> size_q q2 = 0"
    by blast
  with h1 h2 h3 show ?thesis by blast
qed

text \<open>
  C3. A queue made by \<^verbatim>\<open>queue_alloc\<close> with capacity \<open>k > 0\<close> holds at most \<open>k\<close> items after
  any sequence of completed calls of \<^verbatim>\<open>queue_put\<close> and \<^verbatim>\<open>queue_get\<close>. In such a state
  \<^verbatim>\<open>queue_put\<close> completes exactly when a slot is free and then adds 1 to the count,
  and \<^verbatim>\<open>queue_get\<close> completes exactly when an item is there and then takes 1 from it.
\<close>

theorem queue_bounded:
  fixes k :: c_int
  assumes "0 < sint k" and "queue_alloc k = Some q0" and "run_calls q0 cs = Inr q"
  shows "size_q q \<le> nat (sint k)
       \<and> (\<forall>item. if size_q q < nat (sint k)
                  then \<exists>q'. queue_put q item = Inr q' \<and> size_q q' = size_q q + 1
                  else queue_put q item = Inl Blocks)
       \<and> (if 0 < size_q q
          then \<exists>item q'. queue_get q = Inr (item, q') \<and> size_q q' + 1 = size_q q
          else queue_get q = Inl Blocks)"
proof -
  let ?k = "nat (sint k)"
  have inv: "queue_inv ?k q" using assms by (rule reachable_inv)
  then have le: "size_q q \<le> ?k" by (simp add: queue_inv_def)
  have put: "\<And>item. if size_q q < ?k
                  then \<exists>q'. queue_put q item = Inr q' \<and> size_q q' = size_q q + 1
                  else queue_put q item = Inl Blocks"
  proof -
    fix item
    show "if size_q q < ?k
                  then \<exists>q'. queue_put q item = Inr q' \<and> size_q q' = size_q q + 1
                  else queue_put q item = Inl Blocks"
    proof (cases "size_q q < ?k")
      case True
      with inv show ?thesis using queue_put_free [of ?k q item] by auto
    next
      case False
      with le have "size_q q = ?k" by simp
      with inv False show ?thesis by (simp add: queue_put_full)
    qed
  qed
  have get: "if 0 < size_q q
          then \<exists>item q'. queue_get q = Inr (item, q') \<and> size_q q' + 1 = size_q q
          else queue_get q = Inl Blocks"
  proof (cases "0 < size_q q")
    case True
    with inv show ?thesis using queue_get_nonempty [of ?k q] by auto
  next
    case False
    with inv show ?thesis by (simp add: queue_get_empty)
  qed
  show ?thesis using le put get by blast
qed
theorem queue_bounded_witness:
  "0 < sint (2 :: c_int)
   \<and> queue_alloc 2 = Some \<lparr>full = Some 0, empty = Some 2,
         task = Some [Indeterminate, Indeterminate :: nat slot], size_q = 0, mutex = False\<rparr>
   \<and> run_calls \<lparr>full = Some 0, empty = Some 2,
         task = Some [Indeterminate, Indeterminate], size_q = 0, mutex = False\<rparr>
         [Put (Some (7 :: nat)), Put None, Get, Put (Some 9)]
       = Inr \<lparr>full = Some 2, empty = Some 0,
         task = Some [Stored None, Stored (Some 9)], size_q = 2, mutex = False\<rparr>
   \<and> queue_put \<lparr>full = Some 2, empty = Some 0,
         task = Some [Stored None, Stored (Some (9 :: nat))], size_q = 2, mutex = False\<rparr> (Some 1)
       = Inl Blocks
   \<and> (\<exists>item q'. queue_get \<lparr>full = Some 2, empty = Some 0,
         task = Some [Stored None, Stored (Some (9 :: nat))], size_q = 2, mutex = False\<rparr> = Inr (item, q')
         \<and> size_q q' + 1 = 2)"
proof -
  let ?start = "\<lparr>full = Some 0, empty = Some 2,
         task = Some [Indeterminate, Indeterminate :: nat slot], size_q = 0, mutex = False\<rparr>"
  let ?now = "\<lparr>full = Some 2, empty = Some 0,
         task = Some [Stored None, Stored (Some (9 :: nat))], size_q = 2, mutex = False\<rparr>"
  have h1: "0 < sint (2 :: c_int)" by simp
  have "replicate 2 (Indeterminate :: nat slot) = [Indeterminate, Indeterminate]"
    by (simp add: numeral_2_eq_2)
  then have h2: "queue_alloc 2 = Some ?start"
    by (simp add: queue_alloc_def sem_init_def SEM_VALUE_MAX_def)
  have h3: "run_calls ?start [Put (Some 7), Put None, Get, Put (Some 9)] = Inr ?now"
    by (simp add: queue_eval)
  have h4: "\<not> size_q ?now < nat (sint (2 :: c_int))" by simp
  have h5: "0 < size_q ?now" by simp
  from queue_bounded [OF h1 h2 h3] h4 h5
  have "queue_put ?now (Some 1) = Inl Blocks"
    and "\<exists>item q'. queue_get ?now = Inr (item, q') \<and> size_q q' + 1 = size_q ?now"
    by presburger+
  then have "queue_put ?now (Some 1) = Inl Blocks
    \<and> (\<exists>item q'. queue_get ?now = Inr (item, q') \<and> size_q q' + 1 = 2)"
    by simp
  with h1 h2 h3 show ?thesis by blast
qed

subsection \<open>Allocation\<close>

text \<open>
  C8, as stated: \<^verbatim>\<open>queue_alloc\<close> fails for every capacity \<open>\<le> 0\<close>. It does not: for the
  capacities 0 and -1 it returns a queue.
\<close>

theorem queue_alloc_nonpositive_counterexample:
  "sint (0 :: c_int) \<le> 0
   \<and> (queue_alloc 0 :: nat Queue option)
       = Some \<lparr>full = Some 0, empty = Some 0, task = Some [], size_q = 0, mutex = False\<rparr>
   \<and> sint (- 1 :: c_int) \<le> 0
   \<and> (queue_alloc (- 1) :: nat Queue option)
       = Some \<lparr>full = Some 0, empty = None, task = None, size_q = 0, mutex = False\<rparr>"
  by (simp add: queue_alloc_def sem_init_def SEM_VALUE_MAX_def
      unsigned_minus_1_eq_mask mask_eq_exp_minus_1)


text \<open>
  C8, amended. \<^verbatim>\<open>queue_alloc\<close> tests nothing and returns a queue with count 0 for every
  capacity; for every capacity \<open>k > 0\<close> this is a new empty queue with \<open>k\<close> slots, all of
  them free.
\<close>

theorem queue_alloc_never_fails:
  fixes k :: c_int
  shows "\<exists>q. queue_alloc k = Some q \<and> size_q q = 0 \<and> items_of q = []
           \<and> (0 < sint k \<longrightarrow>
                queue_inv (nat (sint k)) q \<and> full q = Some 0 \<and> empty q = Some (nat (sint k))
                \<and> task q = Some (replicate (nat (sint k)) Indeterminate))"
proof -
  obtain q :: "'a Queue" where q: "queue_alloc k = Some q"
    by (simp add: queue_alloc_def)
  have a: "size_q q = 0 \<and> items_of q = []"
    using q by (auto simp: queue_alloc_def items_of_def)
  have b: "queue_inv (nat (sint k)) q \<and> full q = Some 0 \<and> empty q = Some (nat (sint k))
         \<and> task q = Some (replicate (nat (sint k)) Indeterminate)" if "0 < sint k"
  proof -
    from that have nn: "0 \<le> sint k" by simp
    then have "queue_inv (nat (sint k)) q"
      using queue_alloc_inv [OF nn q] by simp
    moreover have "full q = Some 0 \<and> empty q = Some (nat (sint k))
         \<and> task q = Some (replicate (nat (sint k)) Indeterminate)"
      using q nn sint_le_SEM_VALUE_MAX [of k]
      by (auto simp: queue_alloc_def sem_init_def unat_eq_nat_sint)
    ultimately show ?thesis by simp
  qed
  show ?thesis using q a b by blast
qed

theorem queue_alloc_never_fails_witness:
  "\<exists>q :: nat Queue. queue_alloc 3 = Some q \<and> size_q q = 0 \<and> items_of q = []
     \<and> 0 < sint (3 :: c_int)
     \<and> queue_inv 3 q \<and> full q = Some 0 \<and> empty q = Some 3
     \<and> task q = Some [Indeterminate, Indeterminate, Indeterminate]"
proof -
  have h: "0 < sint (3 :: c_int)" by simp
  have r: "replicate 3 (Indeterminate :: nat slot) = [Indeterminate, Indeterminate, Indeterminate]"
    by (simp add: numeral_3_eq_3)
  have n: "nat (sint (3 :: c_int)) = 3" by simp
  from queue_alloc_never_fails [of 3, where 'a = nat, unfolded n r] h
  show ?thesis by blast
qed

end
